theory Spec2Isabelle
  imports Main "HOL-Library.Multiset" "HOL-Library.Product_Lexorder" "HOL-Library.Option_ord"
    "HOL-Library.AList"
begin

section \<open>Frontier structures of the search visualiser\<close>

text \<open>
  The file \<^verbatim>\<open>PriorityQueue.py\<close> provides the three frontier structures used by the
  search algorithms: \<^verbatim>\<open>PriorityQueue\<close> (a lazy-deletion priority queue on top of
  Python's \<^verbatim>\<open>heapq\<close>), \<^verbatim>\<open>Queue\<close> (FIFO) and \<^verbatim>\<open>Stack\<close> (LIFO).
  The file \<^verbatim>\<open>main.py\<close> holds the visualiser that drives a search and records its
  snapshots.  Each Python method becomes a function that takes the object's state and returns
  the new state; an exception becomes the left summand of the result.
\<close>

datatype py_error = KeyError | IndexError | ValueError | TypeError | AttributeError

subsection \<open>The binary heap of \<^verbatim>\<open>heapq\<close>\<close>

text \<open>
  \<^verbatim>\<open>PriorityQueue\<close> stores its entries with \<^verbatim>\<open>heapq.heappush\<close> and
  \<^verbatim>\<open>heapq.heappop\<close>.  The functions below follow the pure-Python implementation of the
  standard library: the heap is a list, the children of position \<open>pos\<close> are at
  \<open>2 * pos + 1\<close> and \<open>2 * pos + 2\<close>, and items are compared with \<open><\<close> only.  That
  comparison is the parameter \<open>lt\<close>: \<open>lt a b\<close> is the truth value of \<^verbatim>\<open>a < b\<close>.
  Nothing is assumed about it, since Python's \<open><\<close> need not be a total order on the
  items (a float \<^verbatim>\<open>nan\<close> is neither below nor above any number).

  \<^verbatim>\<open>
  def _siftdown(heap, startpos, pos):
      newitem = heap[pos]
      while pos > startpos:
          parentpos = (pos - 1) >> 1
          parent = heap[parentpos]
          if newitem < parent:
              heap[pos] = parent
              pos = parentpos
              continue
          break
      heap[pos] = newitem

  def _siftup(heap, pos):
      endpos = len(heap)
      startpos = pos
      newitem = heap[pos]
      childpos = 2*pos + 1
      while childpos < endpos:
          rightpos = childpos + 1
          if rightpos < endpos and not heap[childpos] < heap[rightpos]:
              childpos = rightpos
          heap[pos] = heap[childpos]
          pos = childpos
          childpos = 2*pos + 1
      heap[pos] = newitem
      _siftdown(heap, startpos, pos)

  def heappush(heap, item):
      heap.append(item)
      _siftdown(heap, 0, len(heap)-1)

  def heappop(heap):
      lastelt = heap.pop()    # raises IndexError if heap is empty
      if heap:
          returnitem = heap[0]
          heap[0] = lastelt
          _siftup(heap, 0)
          return returnitem
      return lastelt
  \<close>
\<close>


function siftdown_loop :: "('a \<Rightarrow> 'a \<Rightarrow> bool) \<Rightarrow> 'a list \<Rightarrow> nat \<Rightarrow> nat \<Rightarrow> 'a \<Rightarrow> 'a list" where
  "siftdown_loop lt heap startpos pos newitem =
     (if pos > startpos then
        (let parentpos = (pos - 1) div 2;
             parent = heap ! parentpos
         in if lt newitem parent
            then siftdown_loop lt (heap[pos := parent]) startpos parentpos newitem
            else heap[pos := newitem])
      else heap[pos := newitem])"
  by pat_completeness auto
termination
  by (relation "measure (\<lambda>(lt, heap, startpos, pos, newitem). pos)") auto

declare siftdown_loop.simps [simp del]

definition siftdown :: "('a \<Rightarrow> 'a \<Rightarrow> bool) \<Rightarrow> 'a list \<Rightarrow> nat \<Rightarrow> nat \<Rightarrow> 'a list" where
  "siftdown lt heap startpos pos = siftdown_loop lt heap startpos pos (heap ! pos)"

function siftup_loop :: "('a \<Rightarrow> 'a \<Rightarrow> bool) \<Rightarrow> 'a list \<Rightarrow> nat \<Rightarrow> nat \<Rightarrow> 'a list \<times> nat" where
  "siftup_loop lt heap endpos pos =
     (let childpos = 2 * pos + 1 in
      if childpos < endpos then
        (let rightpos = childpos + 1;
             childpos = (if rightpos < endpos \<and> \<not> lt (heap ! childpos) (heap ! rightpos)
                         then rightpos else childpos)
         in siftup_loop lt (heap[pos := heap ! childpos]) endpos childpos)
      else (heap, pos))"
  by pat_completeness auto
termination
  by (relation "measure (\<lambda>(lt, heap, endpos, pos). endpos - pos)") auto

declare siftup_loop.simps [simp del]

definition siftup :: "('a \<Rightarrow> 'a \<Rightarrow> bool) \<Rightarrow> 'a list \<Rightarrow> nat \<Rightarrow> 'a list" where
  "siftup lt heap pos =
     (let endpos = length heap;
          startpos = pos;
          newitem = heap ! pos;
          (heap1, pos1) = siftup_loop lt heap endpos pos;
          heap2 = heap1[pos1 := newitem]
      in siftdown lt heap2 startpos pos1)"

definition heappush :: "('a \<Rightarrow> 'a \<Rightarrow> bool) \<Rightarrow> 'a list \<Rightarrow> 'a \<Rightarrow> 'a list" where
  "heappush lt heap item =
     (let heap1 = heap @ [item] in siftdown lt heap1 0 (length heap1 - 1))"

definition heappop :: "('a \<Rightarrow> 'a \<Rightarrow> bool) \<Rightarrow> 'a list \<Rightarrow> ('a \<times> 'a list) option" where
  "heappop lt heap =
     (if heap = [] then None
      else (let lastelt = last heap;
                heap1 = butlast heap
            in if heap1 \<noteq> []
               then (let returnitem = heap1 ! 0;
                         heap2 = heap1[0 := lastelt]
                     in Some (returnitem, siftup lt heap2 0))
               else Some (lastelt, heap1)))"

text \<open>
  The heap property, for items that are ordered by a key \<open>k\<close> in a linear order: the key
  at every position but the root is at least the key at its parent.  \<open>key_lt k\<close> is the
  comparison of two items by their keys; the heap functions keep the heap property of \<open>k\<close>
  when their comparison agrees with \<open>key_lt k\<close> on the items of the heap.
\<close>

abbreviation key_lt :: "('a \<Rightarrow> 'k::linorder) \<Rightarrow> 'a \<Rightarrow> 'a \<Rightarrow> bool" where
  "key_lt k \<equiv> (\<lambda>a b. k a < k b)"

definition heap_inv :: "('a \<Rightarrow> 'k::linorder) \<Rightarrow> 'a list \<Rightarrow> bool" where
  "heap_inv k h = (\<forall>i. 0 < i \<and> i < length h \<longrightarrow> k (h ! ((i - 1) div 2)) \<le> k (h ! i))"

text \<open>
  For the proofs about the two sift loops: the child that \<^verbatim>\<open>_siftup\<close> moves up, and the
  invariants of the loops.  \<open>down_pre k h pos x\<close> is what \<^verbatim>\<open>_siftdown\<close> needs when it
  looks for the place of \<open>x\<close> from position \<open>pos\<close> upwards: the heap property holds
  everywhere except between \<open>pos\<close> and its parent, and the children of \<open>pos\<close> are at
  least the parent of \<open>pos\<close> and at least \<open>x\<close>.  \<open>up_inv k h pos\<close> is the invariant of
  the loop of \<^verbatim>\<open>_siftup\<close>, whose hole is at \<open>pos\<close>: the heap property holds except at
  \<open>pos\<close> and its children, and the children of \<open>pos\<close> are at least its parent.
\<close>

definition smaller_child :: "('a \<Rightarrow> 'a \<Rightarrow> bool) \<Rightarrow> 'a list \<Rightarrow> nat \<Rightarrow> nat \<Rightarrow> nat" where
  "smaller_child lt heap endpos pos =
     (if 2 * pos + 2 < endpos \<and> \<not> lt (heap ! (2 * pos + 1)) (heap ! (2 * pos + 2))
      then 2 * pos + 2 else 2 * pos + 1)"

definition down_pre :: "('a \<Rightarrow> 'k::linorder) \<Rightarrow> 'a list \<Rightarrow> nat \<Rightarrow> 'a \<Rightarrow> bool" where
  "down_pre k h pos x \<longleftrightarrow>
     pos < length h \<and>
     (\<forall>i. 0 < i \<and> i < length h \<and> i \<noteq> pos \<longrightarrow> k (h ! ((i - 1) div 2)) \<le> k (h ! i)) \<and>
     (\<forall>c. 0 < c \<and> c < length h \<and> (c - 1) div 2 = pos \<and> 0 < pos \<longrightarrow>
          k (h ! ((pos - 1) div 2)) \<le> k (h ! c)) \<and>
     (\<forall>c. 0 < c \<and> c < length h \<and> (c - 1) div 2 = pos \<longrightarrow> k x \<le> k (h ! c))"

definition up_inv :: "('a \<Rightarrow> 'k::linorder) \<Rightarrow> 'a list \<Rightarrow> nat \<Rightarrow> bool" where
  "up_inv k h pos \<longleftrightarrow>
     pos < length h \<and>
     (\<forall>i. 0 < i \<and> i < length h \<and> i \<noteq> pos \<and> (i - 1) div 2 \<noteq> pos \<longrightarrow>
          k (h ! ((i - 1) div 2)) \<le> k (h ! i)) \<and>
     (\<forall>c. 0 < c \<and> c < length h \<and> (c - 1) div 2 = pos \<and> 0 < pos \<longrightarrow>
          k (h ! ((pos - 1) div 2)) \<le> k (h ! c))"

subsection \<open>The priority queue\<close>

text \<open>
  \<^verbatim>\<open>
  class PriorityQueue:
      def __init__(self):
          self.heap = []
          self.counter = 0  # Unique sequence count for tie-breaking
          self.entry_finder = {}  # Map node to entry
          self.REMOVED = '<removed-task>'  # Placeholder for removed entries
  \<close>
  An entry is the Python list \<^verbatim>\<open>[priority, count, node]\<close>.  The same list object is
  referenced from \<^verbatim>\<open>heap\<close> and from \<^verbatim>\<open>entry_finder\<close>, and \<^verbatim>\<open>remove\<close> overwrites its
  last component in place.  To keep this sharing, the model has an explicit store \<open>objs\<close> of
  entry objects: an address is an index into \<open>objs\<close>, \<open>heap\<close> is a list of addresses and
  \<open>entry_finder\<close> maps a node to an address.  An entry is a triple whose third component is
  \<open>Some node\<close>, or \<open>None\<close> once it has been overwritten with the \<^verbatim>\<open>REMOVED\<close> marker
  (the marker is a string that belongs to the queue; the nodes pushed are \<^verbatim>\<open>Node\<close>
  objects, so no pushed node is the marker).
  The dictionary \<^verbatim>\<open>entry_finder\<close> is an association list in insertion order, as Python
  dictionaries are; its length is the value of \<^verbatim>\<open>len(self.entry_finder)\<close> as long as its
  keys are distinct, which the operations maintain.

  A priority is a Python float (the docstring of \<^verbatim>\<open>push\<close> says so, and \<^verbatim>\<open>main.py\<close>
  reads heuristics and weights with \<^verbatim>\<open>float(value)\<close>, which accepts \<^verbatim>\<open>nan\<close>).  The
  floats other than \<^verbatim>\<open>nan\<close> are linearly ordered; \<open>Num p\<close> is such a number, with \<open>p\<close>
  in any linearly ordered type, and \<open>NaN\<close> is \<^verbatim>\<open>nan\<close>.  \<open>py_lt\<close> and \<open>py_eq\<close> are
  Python's \<^verbatim>\<open><\<close> and \<^verbatim>\<open>==\<close> on floats: every comparison with \<^verbatim>\<open>nan\<close> is false.
\<close>

datatype 'p priority = Num 'p | NaN

fun py_lt :: "'p::linorder priority \<Rightarrow> 'p priority \<Rightarrow> bool" where
  "py_lt (Num x) (Num y) = (x < y)"
| "py_lt _ _ = False"

fun py_eq :: "'p priority \<Rightarrow> 'p priority \<Rightarrow> bool" where
  "py_eq (Num x) (Num y) = (x = y)"
| "py_eq _ _ = False"

type_synonym ('p, 'a) entry = "'p priority \<times> nat \<times> 'a option"

record ('p, 'a) PriorityQueue =
  objs :: "('p, 'a) entry list"
  heap :: "nat list"
  counter :: nat
  entry_finder :: "('a \<times> nat) list"

definition entry_priority :: "('p, 'a) entry list \<Rightarrow> nat \<Rightarrow> 'p priority" where
  "entry_priority os a = fst (os ! a)"

definition entry_count :: "('p, 'a) entry list \<Rightarrow> nat \<Rightarrow> nat" where
  "entry_count os a = fst (snd (os ! a))"

definition entry_node :: "('p, 'a) entry list \<Rightarrow> nat \<Rightarrow> 'a option" where
  "entry_node os a = snd (snd (os ! a))"

text \<open>
  \<^verbatim>\<open>heapq\<close> compares two entries with \<^verbatim>\<open><\<close> as Python lists: the first components that
  are not \<^verbatim>\<open>==\<close> decide, by their \<^verbatim>\<open><\<close>.  So the priorities decide unless they are
  equal, and then the counts decide.  The third components would be compared only if two
  entries of the heap agreed on priority and count; the counts of the entries in the heap are
  pairwise distinct (part of the invariant \<open>pq_invar\<close> below), so that case does not arise,
  and \<open>entry_lt\<close> answers \<open>False\<close> for it.  An entry with priority \<^verbatim>\<open>nan\<close> is neither
  below nor above an entry with another priority object, whatever the counts are.  (Two entries
  that hold the very same \<^verbatim>\<open>nan\<close> object are compared by their counts in CPython, which
  takes an object to be equal to itself; the model takes the priorities of different entries
  to be different objects.  No property below depends on how \<^verbatim>\<open>nan\<close> priorities compare:
  the bookkeeping of the queue is proved for every comparison, and the order of the results
  for heaps without \<^verbatim>\<open>nan\<close>.)
\<close>

definition entry_lt :: "('p::linorder, 'a) entry list \<Rightarrow> nat \<Rightarrow> nat \<Rightarrow> bool" where
  "entry_lt os a b =
     (if \<not> py_eq (entry_priority os a) (entry_priority os b)
      then py_lt (entry_priority os a) (entry_priority os b)
      else if entry_count os a \<noteq> entry_count os b
           then entry_count os a < entry_count os b
           else False)"

text \<open>
  For entries whose priorities are numbers, \<open>entry_lt\<close> is the lexicographic order of the
  pairs of priority and count.  \<open>entry_key\<close> is that pair; the priority is wrapped in
  \<open>Some\<close> so that the key is defined (as a least key) for \<^verbatim>\<open>nan\<close> as well.
\<close>

fun number_of :: "'p priority \<Rightarrow> 'p option" where
  "number_of (Num x) = Some x"
| "number_of NaN = None"

definition entry_key :: "('p, 'a) entry list \<Rightarrow> nat \<Rightarrow> 'p option \<times> nat" where
  "entry_key os a = (number_of (entry_priority os a), entry_count os a)"

definition PriorityQueue_init :: "('p, 'a) PriorityQueue" where
  "PriorityQueue_init = \<lparr>objs = [], heap = [], counter = 0, entry_finder = []\<rparr>"

text \<open>
  \<^verbatim>\<open>
  def __contains__(self, node):  return node in self.entry_finder
  def __len__(self):             return len(self.entry_finder)
  def is_empty(self):            return len(self.entry_finder) == 0
  \<close>
\<close>

definition PriorityQueue_contains :: "('p, 'a) PriorityQueue \<Rightarrow> 'a \<Rightarrow> bool" where
  "PriorityQueue_contains self node \<longleftrightarrow> node \<in> set (map fst (entry_finder self))"

definition PriorityQueue_len :: "('p, 'a) PriorityQueue \<Rightarrow> nat" where
  "PriorityQueue_len self = length (entry_finder self)"

definition PriorityQueue_is_empty :: "('p, 'a) PriorityQueue \<Rightarrow> bool" where
  "PriorityQueue_is_empty self \<longleftrightarrow> length (entry_finder self) = 0"

text \<open>
  \<^verbatim>\<open>
  def remove(self, node):
      entry = self.entry_finder.pop(node)
      entry[-1] = self.REMOVED
  \<close>
  \<^verbatim>\<open>dict.pop\<close> raises \<^verbatim>\<open>KeyError\<close> for a missing key, before anything is changed.
\<close>

definition PriorityQueue_remove ::
  "('p, 'a) PriorityQueue \<Rightarrow> 'a \<Rightarrow> py_error + ('p, 'a) PriorityQueue" where
  "PriorityQueue_remove self node =
     (case map_of (entry_finder self) node of
        None \<Rightarrow> Inl KeyError
      | Some entry \<Rightarrow>
          Inr (self\<lparr>entry_finder := AList.delete node (entry_finder self),
                    objs := (objs self)[entry :=
                      (entry_priority (objs self) entry, entry_count (objs self) entry, None)]\<rparr>))"

text \<open>
  \<^verbatim>\<open>
  def push(self, node, priority):
      if node in self.entry_finder:
          self.remove(node)
      count = self.counter
      self.counter += 1
      entry = [priority, count, node]
      self.entry_finder[node] = entry
      heapq.heappush(self.heap, entry)
  \<close>
  The new entry is a fresh object: its address is the next free index of the store.
\<close>

definition PriorityQueue_push ::
  "('p::linorder, 'a) PriorityQueue \<Rightarrow> 'a \<Rightarrow> 'p priority \<Rightarrow> py_error + ('p, 'a) PriorityQueue" where
  "PriorityQueue_push self node priority =
     (case (if PriorityQueue_contains self node then PriorityQueue_remove self node
            else Inr self) of
        Inl e \<Rightarrow> Inl e
      | Inr self1 \<Rightarrow>
          (let count = counter self1;
               entry = length (objs self1);
               objs1 = objs self1 @ [(priority, count, Some node)]
           in Inr (self1\<lparr>counter := count + 1,
                         objs := objs1,
                         entry_finder := AList.update node entry (entry_finder self1),
                         heap := heappush (entry_lt objs1) (heap self1) entry\<rparr>)))"

text \<open>
  \<^verbatim>\<open>
  def pop(self):
      while self.heap:
          priority, count, node = heapq.heappop(self.heap)
          if node is not self.REMOVED:
              del self.entry_finder[node]
              return node
      raise KeyError('pop from an empty priority queue')
  \<close>
  The result is the returned node or the exception, together with the queue afterwards
  (the loop has popped entries from the heap also when it ends in the exception).
  \<^verbatim>\<open>del\<close> raises \<^verbatim>\<open>KeyError\<close> for a missing key.
\<close>

function PriorityQueue_pop ::
  "('p::linorder, 'a) PriorityQueue \<Rightarrow> (py_error + 'a) \<times> ('p, 'a) PriorityQueue" where
  "PriorityQueue_pop self =
     (if heap self \<noteq> [] then
        (case heappop (entry_lt (objs self)) (heap self) of
           None \<Rightarrow> (Inl IndexError, self)
         | Some (entry, heap1) \<Rightarrow>
             (let self1 = self\<lparr>heap := heap1\<rparr> in
              case entry_node (objs self) entry of
                Some node \<Rightarrow>
                  (if node \<in> set (map fst (entry_finder self1))
                   then (Inr node,
                         self1\<lparr>entry_finder := AList.delete node (entry_finder self1)\<rparr>)
                   else (Inl KeyError, self1))
              | None \<Rightarrow> PriorityQueue_pop self1))
      else (Inl KeyError, self))"
  by pat_completeness auto
termination
proof -
  have down: "length (siftdown_loop k h s pos x) = length h"
    for k :: "nat \<Rightarrow> nat \<Rightarrow> bool" and h s pos x
    by (induction k h s pos x rule: siftdown_loop.induct)
       (subst siftdown_loop.simps, simp add: Let_def)
  have up: "length (fst (siftup_loop k h e pos)) = length h"
    for k :: "nat \<Rightarrow> nat \<Rightarrow> bool" and h e pos
    by (induction k h e pos rule: siftup_loop.induct)
       (subst siftup_loop.simps, simp add: Let_def)
  have less: "length h1 < length h" if "heappop k h = Some (a, h1)"
    for k :: "nat \<Rightarrow> nat \<Rightarrow> bool" and h a h1
  proof -
    have "length (siftup k h2 0) = length h2" for h2
      using up[of k h2 "length h2" 0]
      by (auto simp: siftup_def siftdown_def down Let_def split: prod.splits)
    then show ?thesis
      using that by (auto simp: heappop_def Let_def split: if_splits)
  qed
  show ?thesis
    by (relation "measure (\<lambda>self. length (heap self))") (auto dest: less)
qed

declare PriorityQueue_pop.simps [simp del]

text \<open>
  \<^verbatim>\<open>
  def peek(self):
      while self.heap:
          priority, count, node = self.heap[0]
          if node is not self.REMOVED:
              return node
          heapq.heappop(self.heap)
      return None
  \<close>
\<close>

function PriorityQueue_peek ::
  "('p::linorder, 'a) PriorityQueue \<Rightarrow> (py_error + 'a option) \<times> ('p, 'a) PriorityQueue" where
  "PriorityQueue_peek self =
     (if heap self \<noteq> [] then
        (case entry_node (objs self) (heap self ! 0) of
           Some node \<Rightarrow> (Inr (Some node), self)
         | None \<Rightarrow>
             (case heappop (entry_lt (objs self)) (heap self) of
                None \<Rightarrow> (Inl IndexError, self)
              | Some (entry, heap1) \<Rightarrow> PriorityQueue_peek (self\<lparr>heap := heap1\<rparr>)))
      else (Inr None, self))"
  by pat_completeness auto
termination
proof -
  have down: "length (siftdown_loop k h s pos x) = length h"
    for k :: "nat \<Rightarrow> nat \<Rightarrow> bool" and h s pos x
    by (induction k h s pos x rule: siftdown_loop.induct)
       (subst siftdown_loop.simps, simp add: Let_def)
  have up: "length (fst (siftup_loop k h e pos)) = length h"
    for k :: "nat \<Rightarrow> nat \<Rightarrow> bool" and h e pos
    by (induction k h e pos rule: siftup_loop.induct)
       (subst siftup_loop.simps, simp add: Let_def)
  have less: "length h1 < length h" if "heappop k h = Some (a, h1)"
    for k :: "nat \<Rightarrow> nat \<Rightarrow> bool" and h a h1
  proof -
    have "length (siftup k h2 0) = length h2" for h2
      using up[of k h2 "length h2" 0]
      by (auto simp: siftup_def siftdown_def down Let_def split: prod.splits)
    then show ?thesis
      using that by (auto simp: heappop_def Let_def split: if_splits)
  qed
  show ?thesis
    by (relation "measure (\<lambda>self. length (heap self))") (auto dest: less)
qed

declare PriorityQueue_peek.simps [simp del]

text \<open>
  \<^verbatim>\<open>
  def clear(self):
      self.heap = []
      self.counter = 0
      self.entry_finder = {}
  \<close>
  The entry objects of the old heap stay in the store, unreferenced.
\<close>

definition PriorityQueue_clear :: "('p, 'a) PriorityQueue \<Rightarrow> ('p, 'a) PriorityQueue" where
  "PriorityQueue_clear self = self\<lparr>heap := [], counter := 0, entry_finder := []\<rparr>"

subsection \<open>The FIFO queue and the LIFO stack\<close>

text \<open>
  \<^verbatim>\<open>
  class Queue:
      def __init__(self):       self.items = []
      def push(self, item):     self.items.append(item)
      def pop(self):
          if self.is_empty():
              raise IndexError("pop from empty queue")
          return self.items.pop(0)
      def peek(self):
          if self.is_empty():
              return None
          return self.items[0]
      def is_empty(self):       return len(self.items) == 0
  \<close>
  \<open>Queue_pop\<close> returns the popped item together with the queue after the pop.
\<close>

record 'a Queue =
  items :: "'a list"

definition Queue_init :: "'a Queue" where
  "Queue_init = \<lparr>Queue.items = []\<rparr>"

definition Queue_is_empty :: "'a Queue \<Rightarrow> bool" where
  "Queue_is_empty self \<longleftrightarrow> length (Queue.items self) = 0"

definition Queue_push :: "'a Queue \<Rightarrow> 'a \<Rightarrow> 'a Queue" where
  "Queue_push self item = self\<lparr>Queue.items := Queue.items self @ [item]\<rparr>"

definition Queue_pop :: "'a Queue \<Rightarrow> py_error + 'a \<times> 'a Queue" where
  "Queue_pop self =
     (if Queue_is_empty self then Inl IndexError
      else Inr (hd (Queue.items self), self\<lparr>Queue.items := tl (Queue.items self)\<rparr>))"

definition Queue_peek :: "'a Queue \<Rightarrow> 'a option" where
  "Queue_peek self =
     (if Queue_is_empty self then None else Some (Queue.items self ! 0))"

text \<open>
  \<^verbatim>\<open>
  class Stack:
      def __init__(self):       self.items = []
      def push(self, item):     self.items.append(item)
      def pop(self):
          if self.is_empty():
              raise IndexError("pop from empty stack")
          return self.items.pop()
      def peek(self):
          if self.is_empty():
              return None
          return self.items[-1]
      def is_empty(self):       return len(self.items) == 0
  \<close>
\<close>

record 'a Stack =
  items :: "'a list"

definition Stack_init :: "'a Stack" where
  "Stack_init = \<lparr>Stack.items = []\<rparr>"

definition Stack_is_empty :: "'a Stack \<Rightarrow> bool" where
  "Stack_is_empty self \<longleftrightarrow> length (Stack.items self) = 0"

definition Stack_push :: "'a Stack \<Rightarrow> 'a \<Rightarrow> 'a Stack" where
  "Stack_push self item = self\<lparr>Stack.items := Stack.items self @ [item]\<rparr>"

definition Stack_pop :: "'a Stack \<Rightarrow> py_error + 'a \<times> 'a Stack" where
  "Stack_pop self =
     (if Stack_is_empty self then Inl IndexError
      else Inr (last (Stack.items self), self\<lparr>Stack.items := butlast (Stack.items self)\<rparr>))"

definition Stack_peek :: "'a Stack \<Rightarrow> 'a option" where
  "Stack_peek self =
     (if Stack_is_empty self then None
      else Some (Stack.items self ! (length (Stack.items self) - 1)))"

subsection \<open>Live entries and the invariant of the priority queue\<close>

text \<open>
  An entry of the heap is live when its node has not been overwritten with the
  \<^verbatim>\<open>REMOVED\<close> marker; \<open>live_entries\<close> lists the addresses of the live entries in heap
  order, and \<open>live_for\<close> those that carry a given node.
\<close>

definition live_entries :: "('p, 'a) PriorityQueue \<Rightarrow> nat list" where
  "live_entries self = filter (\<lambda>a. entry_node (objs self) a \<noteq> None) (heap self)"

definition live_for :: "('p, 'a) PriorityQueue \<Rightarrow> 'a \<Rightarrow> nat list" where
  "live_for self node = filter (\<lambda>a. entry_node (objs self) a = Some node) (heap self)"

text \<open>
  The invariant of the reachable states, which is about the bookkeeping and holds whatever
  the priorities are: no entry object occurs twice in the heap; its entries are allocated
  objects whose counts are below the counter and pairwise distinct; the keys of
  \<open>entry_finder\<close> are distinct; every binding of \<open>entry_finder\<close> points to an entry of the
  heap that carries the bound node; and every live entry of the heap is the one bound to
  its node.
\<close>

definition pq_invar :: "('p, 'a) PriorityQueue \<Rightarrow> bool" where
  "pq_invar self \<longleftrightarrow>
     distinct (heap self) \<and>
     list_all (\<lambda>a. a < length (objs self) \<and> entry_count (objs self) a < counter self)
       (heap self) \<and>
     distinct (map (entry_count (objs self)) (heap self)) \<and>
     distinct (map fst (entry_finder self)) \<and>
     list_all (\<lambda>(n, a). a \<in> set (heap self) \<and> entry_node (objs self) a = Some n)
       (entry_finder self) \<and>
     list_all (\<lambda>a. case entry_node (objs self) a of
                      None \<Rightarrow> True
                    | Some n \<Rightarrow> (n, a) \<in> set (entry_finder self))
       (heap self)"

text \<open>
  The order of the heap: no entry of the heap, live or tombstoned, has the priority
  \<^verbatim>\<open>nan\<close>, and the heap is a binary min-heap for the keys \<open>(priority, count)\<close>.  It is
  kept by every operation but a \<open>push\<close> with priority \<^verbatim>\<open>nan\<close>.
\<close>

definition pq_ordered :: "('p::linorder, 'a) PriorityQueue \<Rightarrow> bool" where
  "pq_ordered self \<longleftrightarrow>
     list_all (\<lambda>a. entry_priority (objs self) a \<noteq> NaN) (heap self) \<and>
     heap_inv (entry_key (objs self)) (heap self)"

text \<open>
  What a call of \<open>pop\<close> on the queue \<open>q\<close> with result \<open>r\<close> (the returned node or the
  exception, and the queue afterwards) has to satisfy: the invariant still holds, the heap is
  still ordered if it was, and the entry objects and the counter are unchanged; an exception
  is \<^verbatim>\<open>KeyError\<close>, raised only when \<open>q\<close> has no live entry, and leaves the heap empty; a
  returned node is the node of a live entry \<open>a\<close>, whose key \<open>(priority, count)\<close> is least
  among the live entries if the heap was ordered, and afterwards \<open>a\<close> is gone from the live
  entries and the node from \<open>entry_finder\<close>.
\<close>

definition pop_post ::
  "('p::linorder, 'a) PriorityQueue \<Rightarrow> (py_error + 'a) \<times> ('p, 'a) PriorityQueue \<Rightarrow> bool" where
  "pop_post q r \<longleftrightarrow>
     pq_invar (snd r) \<and> objs (snd r) = objs q \<and> counter (snd r) = counter q \<and>
     (pq_ordered q \<longrightarrow> pq_ordered (snd r)) \<and>
     (case fst r of
        Inl e \<Rightarrow> e = KeyError \<and> live_entries q = [] \<and> heap (snd r) = [] \<and>
                 entry_finder (snd r) = entry_finder q
      | Inr n \<Rightarrow>
          (\<exists>a. a \<in> set (live_entries q) \<and> entry_node (objs q) a = Some n \<and>
               (pq_ordered q \<longrightarrow>
                  (\<forall>b. b \<in> set (live_entries q) \<longrightarrow>
                       entry_key (objs q) a \<le> entry_key (objs q) b)) \<and>
               set (live_entries (snd r)) = set (live_entries q) - {a} \<and>
               entry_finder (snd r) = AList.delete n (entry_finder q)))"

text \<open>
  The same for \<open>peek\<close>, which returns \<^verbatim>\<open>None\<close> instead of raising, changes nothing
  but the heap, and drops only tombstoned entries from it.
\<close>

definition peek_post ::
  "('p::linorder, 'a) PriorityQueue \<Rightarrow> (py_error + 'a option) \<times> ('p, 'a) PriorityQueue \<Rightarrow> bool" where
  "peek_post q r \<longleftrightarrow>
     pq_invar (snd r) \<and> objs (snd r) = objs q \<and> counter (snd r) = counter q \<and>
     (pq_ordered q \<longrightarrow> pq_ordered (snd r)) \<and>
     entry_finder (snd r) = entry_finder q \<and>
     set (live_entries (snd r)) = set (live_entries q) \<and>
     (case fst r of
        Inl e \<Rightarrow> False
      | Inr None \<Rightarrow> live_entries q = [] \<and> heap (snd r) = []
      | Inr (Some n) \<Rightarrow>
          (\<exists>a. a \<in> set (live_entries q) \<and> entry_node (objs q) a = Some n \<and>
               (pq_ordered q \<longrightarrow>
                  (\<forall>b. b \<in> set (live_entries q) \<longrightarrow>
                       entry_key (objs q) a \<le> entry_key (objs q) b))))"

text \<open>
  The part of the invariant that is about \<open>entry_finder\<close>: every binding of \<open>entry_finder\<close>
  points to the one live entry of its node in the heap, and the heap has as many live entries
  as \<open>entry_finder\<close> has bindings.
\<close>

definition finder_consistent :: "('p, 'a) PriorityQueue \<Rightarrow> bool" where
  "finder_consistent self \<longleftrightarrow>
     list_all (\<lambda>(n, a). live_for self n = [a]) (entry_finder self) \<and>
     length (live_entries self) = length (entry_finder self)"

text \<open>
  The states of a priority queue that a program can reach: it starts with the empty queue and
  calls the operations; an operation that raises where it changes nothing (\<open>push\<close> and
  \<open>remove\<close>) leaves the state as it was.
\<close>

inductive pq_reachable :: "('p::linorder, 'a) PriorityQueue \<Rightarrow> bool" where
  init: "pq_reachable PriorityQueue_init"
| push: "pq_reachable q \<Longrightarrow> PriorityQueue_push q node priority = Inr q' \<Longrightarrow> pq_reachable q'"
| remove: "pq_reachable q \<Longrightarrow> PriorityQueue_remove q node = Inr q' \<Longrightarrow> pq_reachable q'"
| pop: "pq_reachable q \<Longrightarrow> pq_reachable (snd (PriorityQueue_pop q))"
| peek: "pq_reachable q \<Longrightarrow> pq_reachable (snd (PriorityQueue_peek q))"
| clear: "pq_reachable q \<Longrightarrow> pq_reachable (PriorityQueue_clear q)"

text \<open>
  The states reached without pushing the priority \<^verbatim>\<open>nan\<close> since the queue was created or
  last cleared: every priority pushed is a number.
\<close>

inductive pq_reachable_numbers :: "('p::linorder, 'a) PriorityQueue \<Rightarrow> bool" where
  init: "pq_reachable_numbers PriorityQueue_init"
| push: "pq_reachable_numbers q \<Longrightarrow> PriorityQueue_push q node (Num p) = Inr q' \<Longrightarrow>
         pq_reachable_numbers q'"
| remove: "pq_reachable_numbers q \<Longrightarrow> PriorityQueue_remove q node = Inr q' \<Longrightarrow>
           pq_reachable_numbers q'"
| pop: "pq_reachable_numbers q \<Longrightarrow> pq_reachable_numbers (snd (PriorityQueue_pop q))"
| peek: "pq_reachable_numbers q \<Longrightarrow> pq_reachable_numbers (snd (PriorityQueue_peek q))"
| clear: "pq_reachable q \<Longrightarrow> pq_reachable_numbers (PriorityQueue_clear q)"

subsection \<open>A concrete queue\<close>

text \<open>
  The queue reached from the empty one by \<^verbatim>\<open>push(10, 5)\<close>, \<^verbatim>\<open>push(20, 3)\<close>,
  \<^verbatim>\<open>push(10, 5)\<close> and \<^verbatim>\<open>push(30, 3)\<close>: the first entry of node 10 has been replaced
  and is a tombstone, which is still in the heap.
\<close>

definition ex_queue :: "(int, nat) PriorityQueue" where
  "ex_queue = \<lparr>objs = [(Num 5, 0, None), (Num 3, 1, Some 20), (Num 5, 2, Some 10), (Num 3, 3, Some 30)],
               heap = [1, 3, 2, 0], counter = 4,
               entry_finder = [(20, 1), (10, 2), (30, 3)]\<rparr>"

text \<open>
  The queue reached from the empty one by \<^verbatim>\<open>push(10, 1)\<close>, \<^verbatim>\<open>push(20, 3)\<close>,
  \<^verbatim>\<open>push(30, 3)\<close> and \<^verbatim>\<open>push(10, 5)\<close>: the tombstone of node 10 has the least key and
  sits at the top of the heap, and the nodes 20 and 30 have the same priority.
\<close>

definition ex_queue_tomb :: "(int, nat) PriorityQueue" where
  "ex_queue_tomb = \<lparr>objs = [(Num 1, 0, None), (Num 3, 1, Some 20), (Num 3, 2, Some 30), (Num 5, 3, Some 10)],
                    heap = [0, 1, 2, 3], counter = 4,
                    entry_finder = [(20, 1), (30, 2), (10, 3)]\<rparr>"

text \<open>
  The queue after \<^verbatim>\<open>push(10, 5)\<close> and \<^verbatim>\<open>remove(10)\<close>: its heap is not empty, but no
  live entry remains.
\<close>

definition ex_queue_dead :: "(int, nat) PriorityQueue" where
  "ex_queue_dead = \<lparr>objs = [(Num 5, 0, None)], heap = [0], counter = 1, entry_finder = []\<rparr>"

text \<open>
  A list of pushes, stopping at the first one that raises.
\<close>

fun push_all ::
  "('p::linorder, 'a) PriorityQueue \<Rightarrow> ('a \<times> 'p priority) list \<Rightarrow>
   py_error + ('p, 'a) PriorityQueue" where
  "push_all self [] = Inr self"
| "push_all self ((node, priority) # rest) =
     (case PriorityQueue_push self node priority of
        Inl e \<Rightarrow> Inl e
      | Inr self1 \<Rightarrow> push_all self1 rest)"

text \<open>
  The queue reached from the empty one by \<^verbatim>\<open>push(1, 2.0)\<close>, \<^verbatim>\<open>push(2, nan)\<close>,
  \<^verbatim>\<open>push(3, 1.0)\<close>, \<^verbatim>\<open>push(4, 0.5)\<close> and \<^verbatim>\<open>push(5, 3.0)\<close>, with the priorities
  written in tenths.  The entry of node 4 was appended below the entry with priority
  \<^verbatim>\<open>nan\<close> and stayed there, since \<^verbatim>\<open>[0.5, 3, n4] < [nan, 1, n2]\<close> is false; the entry
  of node 3, with priority 1.0, is at the top.
\<close>

definition ex_queue_nan :: "(int, nat) PriorityQueue" where
  "ex_queue_nan = \<lparr>objs = [(Num 20, 0, Some 1), (NaN, 1, Some 2), (Num 10, 2, Some 3),
                           (Num 5, 3, Some 4), (Num 30, 4, Some 5)],
                   heap = [2, 1, 0, 3, 4], counter = 5,
                   entry_finder = [(1, 0), (2, 1), (3, 2), (4, 3), (5, 4)]\<rparr>"

section \<open>The visualiser's search run\<close>

subsection \<open>The search agent as the visualiser sees it\<close>

text \<open>
  Modelled from the spec: the class \<^verbatim>\<open>SearchAgent\<close>, which \<^verbatim>\<open>main.py\<close> imports from
  \<^verbatim>\<open>SearchAgent.py\<close>; that file is not among the sources.  The record holds the attributes
  of a search agent that \<^verbatim>\<open>main.py\<close> reads (\<^verbatim>\<open>fringe_list\<close>, \<^verbatim>\<open>visited_list\<close>,
  \<^verbatim>\<open>traversal_array\<close>, \<^verbatim>\<open>path_found\<close>, \<^verbatim>\<open>current_node_info\<close>, \<^verbatim>\<open>success\<close>,
  \<^verbatim>\<open>path_cost\<close>, \<^verbatim>\<open>nodes_explored\<close>).  The type \<open>'n\<close> is that of the items of its lists
  and \<open>'v\<close> that of its numbers.
\<close>

record ('n, 'v) SearchAgent =
  fringe_list :: "'n list"
  visited_list :: "'n list"
  traversal_array :: "'n list"
  path_found :: "'n list"
  current_node_info :: "(string \<times> 'v) list"
  success :: bool
  path_cost :: 'v
  nodes_explored :: nat

text \<open>
  The dictionary \<^verbatim>\<open>self.nodes\<close> maps a node's name (the number it was created with) to
  the \<^verbatim>\<open>Node\<close> object; of a node, only the presentation tag \<^verbatim>\<open>state\<close> takes part in
  the functions modelled here, so the dictionary is the association list from names to tags.
  \<^verbatim>\<open>source_node\<close> and \<^verbatim>\<open>goal_nodes\<close> refer to nodes by name.
\<close>

type_synonym node_states = "(nat \<times> string) list"

text \<open>
  The search engine.  \<^verbatim>\<open>main.py\<close> constructs a \<^verbatim>\<open>SearchAgent\<close> and calls one of its
  eight search methods, which returns a Python generator; the \<^verbatim>\<open>for\<close> loop of
  \<^verbatim>\<open>start_search\<close> resumes the generator, and each resumption either yields, so that the
  body of the loop runs, or finds the generator exhausted, so that the loop ends.  The code
  of the agent is in \<^verbatim>\<open>SearchAgent.py\<close>, which is not among the sources, so the engine is a
  parameter of the functions of \<^verbatim>\<open>main.py\<close> that use it: \<open>'a\<close> is the agent as
  constructed, \<open>'g\<close> the state of a run (the generator with the agent and the nodes it
  works on), \<open>gen_next\<close> one resumption of the generator, returning whether the generator
  is exhausted and the state afterwards, and \<open>agent_of\<close> and \<open>nodes_of\<close> read the agent's
  attributes and the nodes' tags off a state.  Nothing is assumed about what the generator
  does between two yields; the theorems about \<^verbatim>\<open>main.py\<close> hold for every engine.
\<close>

record ('n, 'v, 'a, 'g) engine =
  SearchAgent_new :: "node_states \<Rightarrow> nat \<Rightarrow> nat \<Rightarrow> 'a"
  breadth_first_search :: "'a \<Rightarrow> 'g"
  depth_first_search :: "'a \<Rightarrow> 'g"
  depth_limited_search :: "'a \<Rightarrow> int \<Rightarrow> 'g"
  iterative_deepening_search :: "'a \<Rightarrow> int \<Rightarrow> 'g"
  uniform_cost_search :: "'a \<Rightarrow> 'g"
  bidirectional_search :: "'a \<Rightarrow> 'g"
  greedy_best_first_search :: "'a \<Rightarrow> 'g"
  a_star_search :: "'a \<Rightarrow> 'g"
  gen_next :: "'g \<Rightarrow> bool \<times> 'g"
  agent_of :: "'g \<Rightarrow> ('n, 'v) SearchAgent"
  nodes_of :: "'g \<Rightarrow> node_states"


subsection \<open>Snapshots\<close>

text \<open>
  \<^verbatim>\<open>
  def capture_search_state(self):
      return {
          'fringe': self.search_agent.fringe_list[:],
          'visited': self.search_agent.visited_list[:],
          'traversal': self.search_agent.traversal_array[:],
          'path': self.search_agent.path_found[:],
          'node_states': {name: node.state for name, node in self.nodes.items()},
          'current_info': self.search_agent.current_node_info.copy()
      }
  \<close>
  A snapshot is a dictionary with string keys, here an association list in the order of the
  dictionary display; its values are lists of items, the tags of the nodes, or the dictionary
  of the current evaluation.
\<close>

datatype ('n, 'v) snapshot_value =
  Items "'n list" | NodeStates node_states | Info "(string \<times> 'v) list"

type_synonym ('n, 'v) snapshot = "(string \<times> ('n, 'v) snapshot_value) list"

definition capture_search_state ::
  "('n, 'v) SearchAgent \<Rightarrow> node_states \<Rightarrow> ('n, 'v) snapshot" where
  "capture_search_state search_agent nodes =
     [(''fringe'', Items (fringe_list search_agent)),
      (''visited'', Items (visited_list search_agent)),
      (''traversal'', Items (traversal_array search_agent)),
      (''path'', Items (path_found search_agent)),
      (''node_states'', NodeStates (map (\<lambda>(name, state). (name, state)) nodes)),
      (''current_info'', Info (current_node_info search_agent))]"

subsection \<open>The visualiser\<close>

text \<open>
  The fields of \<^verbatim>\<open>GraphVisualizer\<close> that a search run reads or writes.  \<open>search_run\<close>
  stands for \<^verbatim>\<open>self.search_agent\<close> and \<^verbatim>\<open>self.search_generator\<close> together (the
  generator works on the agent), and \<open>alerts\<close> records the messages shown with
  \<^verbatim>\<open>alert\<close>.  Canvas, document and timer are outside the model.
\<close>

record ('n, 'v, 'g) GraphVisualizer =
  nodes :: node_states
  source_node :: "nat option"
  goal_nodes :: "nat list"
  search_run :: "'g option"
  animation_states :: "('n, 'v) snapshot list"
  current_state_index :: int
  is_animating :: bool
  is_paused :: bool
  alerts :: "string list"

text \<open>
  \<^verbatim>\<open>
  def stop_search(self, event):
      self.is_animating = False
      self.is_paused = False
      ...   # clears the timer, enables and disables buttons

  def clear_path(self, event):
      for node in self.nodes.values():
          if node.state in ['visited', 'path']:
              node.state = 'empty'
          if node == self.source_node:
              node.state = 'source'
          if node in self.goal_nodes:
              node.state = 'goal'
      ...   # resets the data display, renders
  \<close>
\<close>

definition stop_search :: "('n, 'v, 'g) GraphVisualizer \<Rightarrow> ('n, 'v, 'g) GraphVisualizer" where
  "stop_search self = self\<lparr>is_animating := False, is_paused := False\<rparr>"

definition clear_path :: "('n, 'v, 'g) GraphVisualizer \<Rightarrow> ('n, 'v, 'g) GraphVisualizer" where
  "clear_path self =
     self\<lparr>nodes := map (\<lambda>(name, state).
        (let state1 = (if state \<in> set [''visited'', ''path''] then ''empty'' else state);
             state2 = (if Some name = source_node self then ''source'' else state1);
             state3 = (if name \<in> set (goal_nodes self) then ''goal'' else state2)
         in (name, state3))) (nodes self)\<rparr>"

text \<open>
  \<^verbatim>\<open>
  def restore_search_state(self, state):
      ...   # updates the data display from state['fringe'], state['visited'],
            # state['traversal'], state['path'] and state['current_info']
      for name, node_state in state['node_states'].items():
          if name in self.nodes:
              self.nodes[name].state = node_state
      self.render()
  \<close>
  The four lists are looked up first and displayed by a loop over their items, which works
  for a value of any of the three shapes; then the display reads \<^verbatim>\<open>info['g']\<close>,
  \<^verbatim>\<open>info['h']\<close> and \<^verbatim>\<open>info['f']\<close> of \<^verbatim>\<open>info = state['current_info']\<close>; then the
  tags are restored.  A missing key raises \<^verbatim>\<open>KeyError\<close>.  Where \<^verbatim>\<open>info\<close> is a list,
  indexing it with a string raises \<^verbatim>\<open>TypeError\<close>; where it is the dictionary of the tags,
  whose keys are the names of the nodes, the key \<^verbatim>\<open>'g'\<close> is missing.  Where
  \<^verbatim>\<open>state['node_states']\<close> is a list, it has no method \<^verbatim>\<open>items\<close>, which raises
  \<^verbatim>\<open>AttributeError\<close>; where it is a dictionary with string keys, none of its keys is the
  name of a node and no tag changes.
\<close>

definition restore_search_state ::
  "('n, 'v, 'g) GraphVisualizer \<Rightarrow> ('n, 'v) snapshot \<Rightarrow> py_error + ('n, 'v, 'g) GraphVisualizer" where
  "restore_search_state self state =
     (case (map_of state ''fringe'', map_of state ''visited'', map_of state ''traversal'',
            map_of state ''path'') of
        (Some _, Some _, Some _, Some _) \<Rightarrow>
          (case map_of state ''current_info'' of
             None \<Rightarrow> Inl KeyError
           | Some (Info info) \<Rightarrow>
               (case (map_of info ''g'', map_of info ''h'', map_of info ''f'') of
                  (Some _, Some _, Some _) \<Rightarrow>
                    (case map_of state ''node_states'' of
                       None \<Rightarrow> Inl KeyError
                     | Some (NodeStates node_states) \<Rightarrow>
                         Inr (self\<lparr>nodes := foldl (\<lambda>ns (name, node_state).
                                if name \<in> set (map fst ns)
                                then AList.update name node_state ns else ns)
                              (nodes self) node_states\<rparr>)
                     | Some (Info _) \<Rightarrow> Inr self
                     | Some (Items _) \<Rightarrow> Inl AttributeError)
                | _ \<Rightarrow> Inl KeyError)
           | Some (NodeStates _) \<Rightarrow> Inl KeyError
           | Some (Items _) \<Rightarrow> Inl TypeError)
      | _ \<Rightarrow> Inl KeyError)"

text \<open>
  \<^verbatim>\<open>
  def animate_next_step(self):
      if not self.is_animating or self.is_paused:
          return
      if self.current_state_index < len(self.animation_states) - 1:
          self.current_state_index += 1
          self.restore_search_state(self.animation_states[self.current_state_index])
          ...   # captures a GIF frame, schedules the next call with a timer
      else:
          self.animation_complete()

  def animation_complete(self):
      self.is_animating = False
      ...   # displays the results, enables and disables buttons
  \<close>
  Only the call itself is modelled, not the calls the timer makes later.  \<open>py_index\<close> is
  Python's list indexing: a negative index counts from the end, and an index out of range
  raises \<^verbatim>\<open>IndexError\<close>.
\<close>

definition py_index :: "'x list \<Rightarrow> int \<Rightarrow> py_error + 'x" where
  "py_index xs i =
     (if 0 \<le> i \<and> i < int (length xs) then Inr (xs ! nat i)
      else if i < 0 \<and> - int (length xs) \<le> i then Inr (xs ! nat (int (length xs) + i))
      else Inl IndexError)"

definition animation_complete ::
  "('n, 'v, 'g) GraphVisualizer \<Rightarrow> ('n, 'v, 'g) GraphVisualizer" where
  "animation_complete self = self\<lparr>is_animating := False\<rparr>"

definition animate_next_step ::
  "('n, 'v, 'g) GraphVisualizer \<Rightarrow> py_error + ('n, 'v, 'g) GraphVisualizer" where
  "animate_next_step self =
     (if \<not> is_animating self \<or> is_paused self then Inr self
      else if current_state_index self < int (length (animation_states self)) - 1 then
        (let self1 = self\<lparr>current_state_index := current_state_index self + 1\<rparr>
         in case py_index (animation_states self1) (current_state_index self1) of
              Inl e \<Rightarrow> Inl e
            | Inr state \<Rightarrow> restore_search_state self1 state)
      else Inr (animation_complete self))"

text \<open>
  The loop of \<^verbatim>\<open>start_search\<close> that collects the animation states:
  \<^verbatim>\<open>
  for _ in self.search_generator:
      state = self.capture_search_state()
      self.animation_states.append(state)
  \<close>
  Each iteration resumes the generator once; when the generator is exhausted the loop ends,
  otherwise the body captures a snapshot and appends it.  The loop need not end, so the
  function is partial: \<open>None\<close> stands for a loop that runs forever.  The result is the list
  of snapshots and the state of the run after the loop.  (A generator signals its exhaustion
  to the \<^verbatim>\<open>for\<close> loop, which ends normally, so the handler of \<^verbatim>\<open>StopIteration\<close> around
  the loop in \<^verbatim>\<open>start_search\<close> has nothing to catch.)
\<close>

partial_function (option) collect_states ::
  "('g \<Rightarrow> bool \<times> 'g) \<Rightarrow> ('g \<Rightarrow> 's) \<Rightarrow> 'g \<Rightarrow> 's list \<Rightarrow> ('s list \<times> 'g) option" where
  "collect_states step capture g states =
     (case step g of
        (exhausted, g1) \<Rightarrow>
          if exhausted then Some (states, g1)
          else collect_states step capture g1 (states @ [capture g1]))"

declare collect_states.simps [code]

text \<open>
  \<^verbatim>\<open>
  def start_search(self, event):
      if len(self.nodes) == 0:
          alert('Please add nodes to the graph first')
          return
      if self.source_node is None:
          alert('Please set a source node')
          return
      if len(self.goal_nodes) == 0:
          alert('Please set a goal node')
          return
      self.stop_search(None)
      self.clear_path(None)
      algo = document['algorithm-select'].value
      goal = self.goal_nodes[0]  # Use first goal
      self.search_agent = SearchAgent(self.nodes, self.source_node, goal)
      if algo == 'bfs':
          self.search_generator = self.search_agent.breadth_first_search()
      elif algo == 'dfs':
          self.search_generator = self.search_agent.depth_first_search()
      elif algo == 'dls':
          depth_limit = int(document['depth-limit'].value)
          self.search_generator = self.search_agent.depth_limited_search(depth_limit)
      elif algo == 'ids':
          max_depth = int(document['depth-limit'].value)
          self.search_generator = self.search_agent.iterative_deepening_search(max_depth)
      elif algo == 'ucs':
          self.search_generator = self.search_agent.uniform_cost_search()
      elif algo == 'bidirectional':
          self.search_generator = self.search_agent.bidirectional_search()
      elif algo == 'greedy':
          self.search_generator = self.search_agent.greedy_best_first_search()
      elif algo == 'astar':
          self.search_generator = self.search_agent.a_star_search()
      self.animation_states = []
      self.current_state_index = -1
      try:
          for _ in self.search_generator:
              state = self.capture_search_state()
              self.animation_states.append(state)
      except StopIteration:
          pass
      self.is_animating = True
      self.is_paused = False
      self.current_state_index = -1
      ...   # enables and disables buttons
      self.animate_next_step()
  \<close>
  The two values read from the document are arguments: \<open>algo\<close> is the value of the
  algorithm selector, one of the eight names the chain of comparisons knows, and
  \<open>depth_limit\<close> is the integer that \<^verbatim>\<open>int\<close> makes of the depth field, or \<open>None\<close> when
  \<^verbatim>\<open>int\<close> raises \<^verbatim>\<open>ValueError\<close>.  The result is \<open>None\<close> when the collecting loop does not
  end.
\<close>

datatype algorithm = BFS | DFS | DLS | IDS | UCS | Bidirectional | Greedy | AStar

definition make_generator ::
  "('n, 'v, 'a, 'g) engine \<Rightarrow> algorithm \<Rightarrow> int option \<Rightarrow> 'a \<Rightarrow> py_error + 'g" where
  "make_generator eng algo depth_limit search_agent =
     (case algo of
        BFS \<Rightarrow> Inr (breadth_first_search eng search_agent)
      | DFS \<Rightarrow> Inr (depth_first_search eng search_agent)
      | DLS \<Rightarrow> (case depth_limit of
                  None \<Rightarrow> Inl ValueError
                | Some d \<Rightarrow> Inr (depth_limited_search eng search_agent d))
      | IDS \<Rightarrow> (case depth_limit of
                  None \<Rightarrow> Inl ValueError
                | Some d \<Rightarrow> Inr (iterative_deepening_search eng search_agent d))
      | UCS \<Rightarrow> Inr (uniform_cost_search eng search_agent)
      | Bidirectional \<Rightarrow> Inr (bidirectional_search eng search_agent)
      | Greedy \<Rightarrow> Inr (greedy_best_first_search eng search_agent)
      | AStar \<Rightarrow> Inr (a_star_search eng search_agent))"

definition start_search ::
  "('n, 'v, 'a, 'g) engine \<Rightarrow> algorithm \<Rightarrow> int option \<Rightarrow> ('n, 'v, 'g) GraphVisualizer \<Rightarrow>
   (py_error + ('n, 'v, 'g) GraphVisualizer) option" where
  "start_search eng algo depth_limit self =
     (if length (nodes self) = 0 then
        Some (Inr (self\<lparr>alerts := alerts self @ [''Please add nodes to the graph first'']\<rparr>))
      else case source_node self of
        None \<Rightarrow> Some (Inr (self\<lparr>alerts := alerts self @ [''Please set a source node'']\<rparr>))
      | Some source \<Rightarrow>
          if length (goal_nodes self) = 0 then
            Some (Inr (self\<lparr>alerts := alerts self @ [''Please set a goal node'']\<rparr>))
          else
            (let self1 = clear_path (stop_search self);
                 goal = goal_nodes self1 ! 0;
                 search_agent = SearchAgent_new eng (nodes self1) source goal
             in case make_generator eng algo depth_limit search_agent of
                  Inl e \<Rightarrow> Some (Inl e)
                | Inr search_generator \<Rightarrow>
                    (case collect_states (gen_next eng)
                            (\<lambda>g. capture_search_state (agent_of eng g) (nodes_of eng g))
                            search_generator [] of
                       None \<Rightarrow> None
                     | Some (states, g) \<Rightarrow>
                         Some (animate_next_step
                           (self1\<lparr>search_run := Some g,
                                  nodes := nodes_of eng g,
                                  animation_states := states,
                                  current_state_index := - 1,
                                  is_animating := True,
                                  is_paused := False\<rparr>)))))"



subsection \<open>A concrete agent, engine and visualiser\<close>

text \<open>An agent in the middle of a run, and the tags of three nodes.\<close>

definition ex_agent :: "(nat, int) SearchAgent" where
  "ex_agent = \<lparr>fringe_list = [2, 3], visited_list = [1], traversal_array = [1],
               path_found = [], current_node_info = [(''g'', 0), (''h'', 0), (''f'', 0)],
               success = False, path_cost = 0, nodes_explored = 1\<rparr>"

definition ex_nodes :: node_states where
  "ex_nodes = [(1, ''visited''), (2, ''empty''), (3, ''goal'')]"

text \<open>
  A small engine for trying the visualiser: the state of a run is the list of vertices still
  to be expanded and the list of those expanded; a step expands the first vertex still to be
  expanded, and the run is exhausted when there is none.
\<close>

definition ex_view :: "nat list \<times> nat list \<Rightarrow> (nat, int) SearchAgent" where
  "ex_view = (\<lambda>(frontier, visited).
     \<lparr>fringe_list = frontier, visited_list = visited, traversal_array = visited,
      path_found = [], current_node_info = [(''g'', 0), (''h'', 0), (''f'', 0)],
      success = False, path_cost = 0, nodes_explored = length visited\<rparr>)"

definition ex_step :: "nat list \<times> nat list \<Rightarrow> bool \<times> nat list \<times> nat list" where
  "ex_step = (\<lambda>(frontier, visited).
     case frontier of
       [] \<Rightarrow> (True, ([], visited))
     | v # rest \<Rightarrow> (False, (rest, visited @ [v])))"

definition ex_tags :: "nat list \<times> nat list \<Rightarrow> node_states" where
  "ex_tags = (\<lambda>(frontier, visited).
     map (\<lambda>v. (v, ''visited'')) visited @ map (\<lambda>v. (v, ''empty'')) frontier)"

definition ex_engine :: "(nat, int, nat list, nat list \<times> nat list) engine" where
  "ex_engine =
     \<lparr>SearchAgent_new = (\<lambda>ns source goal. map fst ns),
      breadth_first_search = (\<lambda>a. (a, [])),
      depth_first_search = (\<lambda>a. (a, [])),
      depth_limited_search = (\<lambda>a d. (a, [])),
      iterative_deepening_search = (\<lambda>a d. (a, [])),
      uniform_cost_search = (\<lambda>a. (a, [])),
      bidirectional_search = (\<lambda>a. (a, [])),
      greedy_best_first_search = (\<lambda>a. (a, [])),
      a_star_search = (\<lambda>a. (a, [])),
      gen_next = ex_step,
      agent_of = ex_view,
      nodes_of = ex_tags\<rparr>"

definition ex_visualizer :: "(nat, int, nat list \<times> nat list) GraphVisualizer" where
  "ex_visualizer =
     \<lparr>nodes = [(1, ''source''), (2, ''goal'')], source_node = Some 1, goal_nodes = [2],
      search_run = None, animation_states = [], current_state_index = - 1,
      is_animating = False, is_paused = False, alerts = []\<rparr>"

definition ex_visualizer_no_source :: "(nat, int, nat list \<times> nat list) GraphVisualizer" where
  "ex_visualizer_no_source = ex_visualizer\<lparr>source_node := None\<rparr>"


section \<open>The heap functions keep the heap property\<close>

lemma length_siftdown_loop [simp]: "length (siftdown_loop lt h s pos x) = length h"
  by (induction lt h s pos x rule: siftdown_loop.induct)
     (subst siftdown_loop.simps, auto simp: Let_def)

lemma length_siftup_loop: "siftup_loop lt h e pos = (h', pos') \<Longrightarrow> length h' = length h"
  by (induction lt h e pos arbitrary: h' pos' rule: siftup_loop.induct)
     (subst (asm) (2) siftup_loop.simps, auto simp: Let_def split: if_splits)

lemma mset_swap_hole:
  assumes "i < length h" "j < length h"
  shows "mset (h[i := h ! j, j := x]) = mset (h[i := x])"
proof (cases "i = j")
  case True
  then show ?thesis by simp
next
  case False
  with assms show ?thesis by (simp add: mset_update)
qed

lemma mset_siftdown_loop:
  "pos < length h \<Longrightarrow> mset (siftdown_loop lt h s pos x) = mset (h[pos := x])"
proof (induction lt h s pos x rule: siftdown_loop.induct)
  case (1 lt heap startpos pos newitem)
  show ?case
  proof (cases "pos > startpos \<and> lt newitem (heap ! ((pos - 1) div 2))")
    case True
    then have "mset (siftdown_loop lt heap startpos pos newitem) =
        mset (heap[pos := heap ! ((pos - 1) div 2), (pos - 1) div 2 := newitem])"
      using 1 by (subst siftdown_loop.simps) (simp add: Let_def)
    also have "\<dots> = mset (heap[pos := newitem])"
      using 1(2) by (intro mset_swap_hole) auto
    finally show ?thesis .
  next
    case False
    then show ?thesis by (subst siftdown_loop.simps) (auto simp: Let_def)
  qed
qed

lemma siftup_loop_leaf: "\<not> 2 * pos + 1 < e \<Longrightarrow> siftup_loop lt h e pos = (h, pos)"
  by (subst siftup_loop.simps) (simp add: Let_def)

lemma siftup_loop_step:
  "2 * pos + 1 < e \<Longrightarrow>
   siftup_loop lt h e pos =
   siftup_loop lt (h[pos := h ! smaller_child lt h e pos]) e (smaller_child lt h e pos)"
  by (subst siftup_loop.simps) (simp add: Let_def smaller_child_def)

lemma smaller_child_cases:
  "2 * pos + 1 < e \<Longrightarrow>
   smaller_child lt h e pos < e \<and> pos < smaller_child lt h e pos \<and>
   (smaller_child lt h e pos = 2 * pos + 1 \<or> smaller_child lt h e pos = 2 * pos + 2)"
  by (auto simp: smaller_child_def)

lemma siftup_loop_pos:
  "siftup_loop lt h e pos = (h', pos') \<Longrightarrow> e = length h \<Longrightarrow> pos < length h \<Longrightarrow> pos' < length h"
proof (induction "e - pos" arbitrary: h pos rule: less_induct)
  case less
  show ?case
  proof (cases "2 * pos + 1 < e")
    case False
    with less.prems show ?thesis by (simp add: siftup_loop_leaf)
  next
    case True
    let ?c = "smaller_child lt h e pos"
    note c = smaller_child_cases[OF True, of lt h]
    have rec: "siftup_loop lt (h[pos := h ! ?c]) e ?c = (h', pos')"
      using less.prems(1) by (simp only: siftup_loop_step[OF True])
    have "pos' < length (h[pos := h ! ?c])"
      by (rule less.hyps[OF _ rec]) (use less.prems c in \<open>simp_all add: diff_less_mono2\<close>)
    then show ?thesis by simp
  qed
qed

lemma mset_siftup_loop:
  "siftup_loop lt h e pos = (h', pos') \<Longrightarrow> e = length h \<Longrightarrow> pos < length h \<Longrightarrow>
   mset (h'[pos' := x]) = mset (h[pos := x])"
proof (induction "e - pos" arbitrary: h pos rule: less_induct)
  case less
  show ?case
  proof (cases "2 * pos + 1 < e")
    case False
    with less.prems show ?thesis by (simp add: siftup_loop_leaf)
  next
    case True
    let ?c = "smaller_child lt h e pos"
    note c = smaller_child_cases[OF True, of lt h]
    have rec: "siftup_loop lt (h[pos := h ! ?c]) e ?c = (h', pos')"
      using less.prems(1) by (simp only: siftup_loop_step[OF True])
    have "mset (h'[pos' := x]) = mset (h[pos := h ! ?c, ?c := x])"
      by (rule less.hyps[OF _ rec]) (use less.prems c in \<open>simp_all add: diff_less_mono2\<close>)
    also have "\<dots> = mset (h[pos := x])"
      using less.prems c by (intro mset_swap_hole) auto
    finally show ?thesis .
  qed
qed

lemma siftdown_loop_stop:
  "\<not> (s < pos \<and> lt x (h ! ((pos - 1) div 2))) \<Longrightarrow> siftdown_loop lt h s pos x = h[pos := x]"
  by (subst siftdown_loop.simps) (auto simp: Let_def)

lemma siftdown_loop_step:
  "s < pos \<Longrightarrow> lt x (h ! ((pos - 1) div 2)) \<Longrightarrow>
   siftdown_loop lt h s pos x = siftdown_loop lt (h[pos := h ! ((pos - 1) div 2)]) s ((pos - 1) div 2) x"
  by (subst siftdown_loop.simps) (auto simp: Let_def)

lemma down_pre_stop:
  assumes "down_pre k h pos x" "\<not> (0 < pos \<and> k x < k (h ! ((pos - 1) div 2)))"
  shows "heap_inv k (h[pos := x])"
  unfolding heap_inv_def
proof (intro allI impI)
  fix i assume i: "0 < i \<and> i < length (h[pos := x])"
  show "k (h[pos := x] ! ((i - 1) div 2)) \<le> k (h[pos := x] ! i)"
  proof (cases "i = pos")
    case True
    then show ?thesis using assms i by (auto simp: down_pre_def nth_list_update)
  next
    case False
    show ?thesis
    proof (cases "(i - 1) div 2 = pos")
      case True
      then show ?thesis using assms i False by (auto simp: down_pre_def nth_list_update)
    next
      case False
      then show ?thesis using assms i \<open>i \<noteq> pos\<close> by (auto simp: down_pre_def nth_list_update)
    qed
  qed
qed

lemma down_pre_step:
  assumes "down_pre k h pos x" "0 < pos" "k x < k (h ! ((pos - 1) div 2))"
  shows "down_pre k (h[pos := h ! ((pos - 1) div 2)]) ((pos - 1) div 2) x"
proof -
  let ?p = "(pos - 1) div 2"
  let ?h = "h[pos := h ! ?p]"
  have pos: "pos < length h" and p: "?p < pos" using assms by (auto simp: down_pre_def)
  have A: "\<And>i. 0 < i \<Longrightarrow> i < length h \<Longrightarrow> i \<noteq> pos \<Longrightarrow> k (h ! ((i - 1) div 2)) \<le> k (h ! i)"
    using assms(1) by (auto simp: down_pre_def)
  have B: "\<And>c. 0 < c \<Longrightarrow> c < length h \<Longrightarrow> (c - 1) div 2 = pos \<Longrightarrow> k (h ! ?p) \<le> k (h ! c)"
    using assms(1,2) by (auto simp: down_pre_def)
  have 1: "k (?h ! ((i - 1) div 2)) \<le> k (?h ! i)" if "0 < i" "i < length h" "i \<noteq> ?p" for i
  proof (cases "i = pos")
    case True
    then show ?thesis using p pos by simp
  next
    case False
    show ?thesis
    proof (cases "(i - 1) div 2 = pos")
      case True
      then show ?thesis using B[OF that(1,2)] False pos by simp
    next
      case False
      then show ?thesis using A[OF that(1,2)] \<open>i \<noteq> pos\<close> by simp
    qed
  qed
  have 2: "k (?h ! ((?p - 1) div 2)) \<le> k (?h ! c)"
    if "0 < c" "c < length h" "(c - 1) div 2 = ?p" "0 < ?p" for c
  proof -
    have pp: "(?p - 1) div 2 \<noteq> pos" using p by auto
    have "k (h ! ((?p - 1) div 2)) \<le> k (h ! ?p)"
      using A[of ?p] that(4) p pos by auto
    moreover have "k (h ! ?p) \<le> k (?h ! c)"
    proof (cases "c = pos")
      case True
      then show ?thesis using pos by simp
    next
      case False
      then show ?thesis using A[OF that(1,2)] that(3) by simp
    qed
    ultimately show ?thesis using pp by simp
  qed
  have 3: "k x \<le> k (?h ! c)" if "0 < c" "c < length h" "(c - 1) div 2 = ?p" for c
  proof (cases "c = pos")
    case True
    then show ?thesis using pos assms(3) by simp
  next
    case False
    then have "k (h ! ?p) \<le> k (h ! c)" using A[OF that(1,2)] that(3) by simp
    then show ?thesis using assms(3) False by simp
  qed
  show ?thesis
    unfolding down_pre_def length_list_update
  proof (intro conjI allI impI)
    show "?p < length h" using p pos by simp
  qed (use 1 2 3 in \<open>elim conjE, simp\<close>)+
qed

lemma siftdown_loop_heap_inv:
  "down_pre k h pos x \<Longrightarrow> heap_inv k (siftdown_loop (key_lt k) h 0 pos x)"
proof (induction pos arbitrary: h rule: less_induct)
  case (less pos)
  show ?case
  proof (cases "0 < pos \<and> k x < k (h ! ((pos - 1) div 2))")
    case False
    then show ?thesis using down_pre_stop[OF less.prems] by (simp add: siftdown_loop_stop)
  next
    case True
    then have "(pos - 1) div 2 < pos" by auto
    then show ?thesis
      using True less.IH[OF _ down_pre_step[OF less.prems]] by (simp add: siftdown_loop_step)
  qed
qed

lemma up_inv_leaf:
  assumes "up_inv k h pos" "\<not> 2 * pos + 1 < length h"
  shows "down_pre k (h[pos := x]) pos x"
proof -
  have nochild: "(c - 1) div 2 \<noteq> pos" if "0 < c" "c < length h" for c
    using that assms(2) by auto
  show ?thesis
    unfolding down_pre_def using assms(1) nochild
    by (auto simp: up_inv_def nth_list_update)
qed

lemma up_inv_step:
  assumes "up_inv k h pos" "2 * pos + 1 < length h"
  shows "up_inv k (h[pos := h ! smaller_child (key_lt k) h (length h) pos]) (smaller_child (key_lt k) h (length h) pos)"
proof -
  let ?c = "smaller_child (key_lt k) h (length h) pos"
  let ?h = "h[pos := h ! ?c]"
  note c = smaller_child_cases[OF assms(2), of "key_lt k" h]
  have pos: "pos < length h" using assms(2) by simp
  have cp: "(?c - 1) div 2 = pos" using c by auto
  have A: "\<And>i. 0 < i \<Longrightarrow> i < length h \<Longrightarrow> i \<noteq> pos \<Longrightarrow> (i - 1) div 2 \<noteq> pos \<Longrightarrow>
      k (h ! ((i - 1) div 2)) \<le> k (h ! i)"
    using assms(1) by (auto simp: up_inv_def)
  have B: "\<And>c. 0 < c \<Longrightarrow> c < length h \<Longrightarrow> (c - 1) div 2 = pos \<Longrightarrow> 0 < pos \<Longrightarrow>
      k (h ! ((pos - 1) div 2)) \<le> k (h ! c)"
    using assms(1) by (auto simp: up_inv_def)
  have sib: "k (h ! ?c) \<le> k (h ! i)" if "0 < i" "i < length h" "(i - 1) div 2 = pos" for i
  proof -
    have "i = 2 * pos + 1 \<or> i = 2 * pos + 2" using that by auto
    then show ?thesis using that(2) by (auto simp: smaller_child_def)
  qed
  have 1: "k (?h ! ((i - 1) div 2)) \<le> k (?h ! i)"
    if "0 < i" "i < length h" "i \<noteq> ?c" "(i - 1) div 2 \<noteq> ?c" for i
  proof (cases "i = pos")
    case True
    then have "(i - 1) div 2 \<noteq> pos" using that(1) by auto
    then show ?thesis using True B[of ?c] c cp pos that(1) by simp
  next
    case False
    show ?thesis
    proof (cases "(i - 1) div 2 = pos")
      case True
      then show ?thesis using sib[OF that(1,2)] False pos by simp
    next
      case False
      then show ?thesis using A[OF that(1,2)] \<open>i \<noteq> pos\<close> by simp
    qed
  qed
  have 2: "k (?h ! ((?c - 1) div 2)) \<le> k (?h ! g)"
    if "0 < g" "g < length h" "(g - 1) div 2 = ?c" for g
  proof -
    have "g \<noteq> pos" using that c by auto
    moreover have "(g - 1) div 2 \<noteq> pos" using that c by auto
    ultimately have "k (h ! ?c) \<le> k (h ! g)" using A[OF that(1,2)] that(3) by simp
    then show ?thesis using cp pos \<open>g \<noteq> pos\<close> by simp
  qed
  show ?thesis
    unfolding up_inv_def length_list_update
  proof (intro conjI allI impI)
    show "?c < length h" using c by simp
  qed (use 1 2 in \<open>elim conjE, simp\<close>)+
qed

lemma siftup_loop_down_pre:
  "siftup_loop (key_lt k) h e pos = (h', pos') \<Longrightarrow> e = length h \<Longrightarrow> up_inv k h pos \<Longrightarrow>
   down_pre k (h'[pos' := x]) pos' x"
proof (induction "e - pos" arbitrary: h pos rule: less_induct)
  case less
  show ?case
  proof (cases "2 * pos + 1 < e")
    case False
    with less.prems up_inv_leaf[of k h pos x] show ?thesis by (simp add: siftup_loop_leaf)
  next
    case True
    let ?c = "smaller_child (key_lt k) h e pos"
    note c = smaller_child_cases[OF True, of "key_lt k" h]
    have rec: "siftup_loop (key_lt k) (h[pos := h ! ?c]) e ?c = (h', pos')"
      using less.prems(1) by (simp only: siftup_loop_step[OF True])
    have "up_inv k (h[pos := h ! ?c]) ?c"
      using up_inv_step[of k h pos] less.prems True by simp
    then show ?thesis
      by (intro less.hyps[OF _ rec]) (use less.prems c in \<open>simp_all add: diff_less_mono2\<close>)
  qed
qed

lemma length_siftdown [simp]: "length (siftdown lt h s pos) = length h"
  by (simp add: siftdown_def)

lemma length_heappush [simp]: "length (heappush lt h x) = Suc (length h)"
  by (simp add: heappush_def Let_def)

lemma mset_heappush: "mset (heappush lt h x) = add_mset x (mset h)"
  by (simp add: heappush_def Let_def siftdown_def mset_siftdown_loop)

lemma set_heappush: "set (heappush lt h x) = insert x (set h)"
proof -
  have "set_mset (mset (heappush lt h x)) = set_mset (add_mset x (mset h))"
    by (simp only: mset_heappush)
  then show ?thesis by simp
qed

lemma heap_inv_heappush:
  assumes "heap_inv k h"
  shows "heap_inv k (heappush (key_lt k) h x)"
proof -
  have A: "k ((h @ [x]) ! ((i - 1) div 2)) \<le> k ((h @ [x]) ! i)"
    if "0 < i" "i < length (h @ [x])" "i \<noteq> length h" for i
  proof -
    have i: "i < length h" using that by simp
    then have "(i - 1) div 2 < length h" by auto
    then show ?thesis using assms i that(1) by (simp add: nth_append heap_inv_def)
  qed
  have nochild: "(c - 1) div 2 \<noteq> length h" if "0 < c" "c < length (h @ [x])" for c
    using that by auto
  have "down_pre k (h @ [x]) (length h) x"
    unfolding down_pre_def
  proof (intro conjI allI impI)
    show "length h < length (h @ [x])" by simp
  qed (use A nochild in blast)+
  then show ?thesis
    using siftdown_loop_heap_inv[of k "h @ [x]" "length h" x]
    by (simp add: heappush_def siftdown_def Let_def)
qed

lemma heap_inv_min:
  "heap_inv k h \<Longrightarrow> i < length h \<Longrightarrow> k (h ! 0) \<le> k (h ! i)"
proof (induction i rule: less_induct)
  case (less i)
  show ?case
  proof (cases "i = 0")
    case True
    then show ?thesis by simp
  next
    case False
    then have "(i - 1) div 2 < i" by auto
    moreover have "k (h ! ((i - 1) div 2)) \<le> k (h ! i)"
      using less.prems False by (auto simp: heap_inv_def)
    ultimately show ?thesis
      using less.IH[of "(i - 1) div 2"] less.prems by auto
  qed
qed

lemma heap_inv_cong:
  assumes "\<And>a. a \<in> set h \<Longrightarrow> k a = k' a"
  shows "heap_inv k h = heap_inv k' h"
proof -
  have eq: "k (h ! j) = k' (h ! j)" if "j < length h" for j
    using assms that by simp
  have "(k (h ! ((i - 1) div 2)) \<le> k (h ! i)) = (k' (h ! ((i - 1) div 2)) \<le> k' (h ! i))"
    if "0 < i" "i < length h" for i
  proof -
    have "(i - 1) div 2 < length h" using that by auto
    then show ?thesis using eq that(2) by simp
  qed
  then show ?thesis unfolding heap_inv_def by blast
qed

lemma heappop_Nil [simp]: "heappop lt [] = None"
  by (simp add: heappop_def)

lemma siftup_props:
  assumes "pos < length h"
  shows "length (siftup lt h pos) = length h" and "mset (siftup lt h pos) = mset h"
proof -
  obtain h1 pos1 where r: "siftup_loop lt h (length h) pos = (h1, pos1)"
    by (cases "siftup_loop lt h (length h) pos")
  have l: "length h1 = length h" using length_siftup_loop[OF r] .
  have p: "pos1 < length h" using siftup_loop_pos[OF r refl assms] .
  have eq: "siftup lt h pos = siftdown_loop lt (h1[pos1 := h ! pos]) pos pos1 (h ! pos)"
    using r p l by (simp add: siftup_def Let_def siftdown_def)
  show "length (siftup lt h pos) = length h" by (simp add: eq l)
  have "mset (siftup lt h pos) = mset (h1[pos1 := h ! pos])"
    using p l by (simp add: eq mset_siftdown_loop)
  also have "\<dots> = mset (h[pos := h ! pos])"
    using mset_siftup_loop[OF r refl assms] .
  finally show "mset (siftup lt h pos) = mset h" by simp
qed

lemma heap_inv_siftup:
  assumes "up_inv k h 0"
  shows "heap_inv k (siftup (key_lt k) h 0)"
proof -
  obtain h1 pos1 where r: "siftup_loop (key_lt k) h (length h) 0 = (h1, pos1)"
    by (cases "siftup_loop (key_lt k) h (length h) 0")
  have pos: "0 < length h" using assms by (simp add: up_inv_def)
  have l: "length h1 = length h" using length_siftup_loop[OF r] .
  have p: "pos1 < length h" using siftup_loop_pos[OF r refl pos] .
  have eq: "siftup (key_lt k) h 0 = siftdown_loop (key_lt k) (h1[pos1 := h ! 0]) 0 pos1 (h ! 0)"
    using r p l by (simp add: siftup_def Let_def siftdown_def)
  show ?thesis
    unfolding eq using siftup_loop_down_pre[OF r refl assms]
    by (rule siftdown_loop_heap_inv)
qed

lemma heappop_unfold:
  assumes "h \<noteq> []"
  shows "heappop lt h =
    Some (h ! 0, if butlast h = [] then [] else siftup lt ((butlast h)[0 := last h]) 0)"
proof (cases "butlast h = []")
  case True
  have "butlast h @ [last h] = h" using assms by (rule append_butlast_last_id)
  then have h: "h = [last h]" using True by simp
  have h0: "h ! 0 = last h" by (subst h) simp
  show ?thesis using True assms h0 by (simp add: heappop_def Let_def)
next
  case False
  have "length (butlast h) \<noteq> 0" using False by (simp del: length_butlast)
  then have l2: "Suc 0 < length h" by simp
  have b0: "butlast h ! 0 = h ! 0" using l2 by (simp add: nth_butlast)
  show ?thesis using False assms b0 by (simp add: heappop_def Let_def)
qed

lemma heappop_Some:
  assumes "h \<noteq> []"
  obtains h' where "heappop lt h = Some (h ! 0, h')" "mset h = add_mset (h ! 0) (mset h')"
    "length h' = length h - 1"
proof (cases "butlast h = []")
  case True
  have "butlast h @ [last h] = h" using assms by (rule append_butlast_last_id)
  then have h: "h = [last h]" using True by simp
  have h0: "h ! 0 = last h" by (subst h) simp
  show ?thesis
  proof (rule that[of "[]"])
    show "heappop lt h = Some (h ! 0, [])" using True assms by (simp add: heappop_unfold)
    have "mset h = mset [last h]" by (subst h) simp
    then show "mset h = add_mset (h ! 0) (mset [])" using h0 by simp
    have "length h = length [last h]" by (subst h) simp
    then show "length [] = length h - 1" by simp
  qed
next
  case False
  let ?h2 = "(butlast h)[0 := last h]"
  have "length (butlast h) \<noteq> 0" using False by (simp del: length_butlast)
  then have l2: "Suc 0 < length h" by simp
  have len: "0 < length ?h2" using l2 by simp
  have b0: "butlast h ! 0 = h ! 0" using l2 by (simp add: nth_butlast)
  show ?thesis
  proof (rule that[of "siftup lt ?h2 0"])
    show "heappop lt h = Some (h ! 0, siftup lt ?h2 0)"
      using False assms by (simp add: heappop_unfold)
    have "mset (butlast h @ [last h]) = mset h"
      using assms by simp
    then have "mset h = add_mset (last h) (mset (butlast h))"
      by (simp del: append_butlast_last_id)
    moreover have "mset ?h2 = add_mset (last h) (mset (butlast h) - {#butlast h ! 0#})"
      using l2 by (intro mset_update) simp
    then have "mset ?h2 = add_mset (last h) (mset (butlast h) - {#h ! 0#})"
      by (simp only: b0)
    moreover have "butlast h ! 0 \<in> set (butlast h)"
      using l2 by (intro nth_mem) simp
    then have "h ! 0 \<in># mset (butlast h)"
      using b0 by simp
    ultimately show "mset h = add_mset (h ! 0) (mset (siftup lt ?h2 0))"
      using l2 by (simp add: siftup_props(2)[OF len])
    show "length (siftup lt ?h2 0) = length h - 1"
      using l2 by (simp add: siftup_props(1)[OF len])
  qed
qed

lemma heappop_length_less:
  assumes "heappop lt h = Some (a, h')"
  shows "length h' < length h"
proof -
  have ne: "h \<noteq> []" using assms by auto
  then obtain h2 where "heappop lt h = Some (h ! 0, h2)" and "length h2 = length h - 1"
    using heappop_Some[of h lt] by metis
  with assms ne show ?thesis by simp
qed

lemma heap_inv_heappop_key:
  assumes hi: "heap_inv k h" and pop: "heappop (key_lt k) h = Some (a, h')"
  shows "heap_inv k h'"
proof -
  have ne: "h \<noteq> []" using pop by auto
  show ?thesis
  proof (cases "butlast h = []")
    case True
    then have "h' = []" using pop ne by (simp add: heappop_unfold)
    then show ?thesis by (simp add: heap_inv_def)
  next
    case False
    let ?h2 = "(butlast h)[0 := last h]"
    have "length (butlast h) \<noteq> 0" using False by (simp del: length_butlast)
    then have l2: "Suc 0 < length h" by simp
    have len: "0 < length ?h2" using l2 by simp
    have h': "h' = siftup (key_lt k) ?h2 0" using pop ne False by (simp add: heappop_unfold)
    have "k (?h2 ! ((i - 1) div 2)) \<le> k (?h2 ! i)"
      if "0 < i" "i < length (butlast h)" "(i - 1) div 2 \<noteq> 0" for i
    proof -
      have "i < length h" using that(2) by simp
      then have "k (h ! ((i - 1) div 2)) \<le> k (h ! i)" using hi that(1) by (auto simp: heap_inv_def)
      moreover have "(i - 1) div 2 < length (butlast h)" using that(2) by auto
      ultimately show ?thesis using that by (simp add: nth_butlast)
    qed
    then have "up_inv k ?h2 0"
      unfolding up_inv_def using len by auto
    then show ?thesis unfolding h' by (rule heap_inv_siftup)
  qed
qed

subsection \<open>The result of the heap functions depends on the comparison of the heap's items only\<close>

lemma set_update_nth_subset:
  assumes "j < length h"
  shows "set (h[i := h ! j]) \<subseteq> set h"
proof -
  have "set (h[i := h ! j]) \<subseteq> insert (h ! j) (set h)" by (rule set_update_subset_insert)
  moreover have "h ! j \<in> set h" using assms by simp
  ultimately show ?thesis by auto
qed

lemma siftdown_loop_cong:
  assumes "\<And>a b. a \<in> insert x (set h) \<Longrightarrow> b \<in> insert x (set h) \<Longrightarrow> lt a b = lt' a b"
    and "pos < length h"
  shows "siftdown_loop lt h s pos x = siftdown_loop lt' h s pos x"
  using assms
proof (induction pos arbitrary: h rule: less_induct)
  case (less pos)
  let ?p = "(pos - 1) div 2"
  show ?case
  proof (cases "s < pos")
    case False
    then show ?thesis by (simp add: siftdown_loop_stop)
  next
    case True
    then have p: "?p < pos" by auto
    then have pl: "?p < length h" using less.prems(2) by simp
    then have mem: "h ! ?p \<in> set h" by simp
    have agree: "lt x (h ! ?p) = lt' x (h ! ?p)"
      using less.prems(1)[of x "h ! ?p"] mem by simp
    show ?thesis
    proof (cases "lt x (h ! ?p)")
      case False
      then show ?thesis using agree by (simp add: siftdown_loop_stop)
    next
      case lt: True
      have sub: "set (h[pos := h ! ?p]) \<subseteq> set h" using pl by (rule set_update_nth_subset)
      have "siftdown_loop lt (h[pos := h ! ?p]) s ?p x = siftdown_loop lt' (h[pos := h ! ?p]) s ?p x"
      proof (rule less.IH[OF p])
        show "?p < length (h[pos := h ! ?p])" using pl by simp
        show "lt a b = lt' a b"
          if "a \<in> insert x (set (h[pos := h ! ?p]))" "b \<in> insert x (set (h[pos := h ! ?p]))" for a b
        proof (rule less.prems(1))
          show "a \<in> insert x (set h)" using that(1) sub by auto
          show "b \<in> insert x (set h)" using that(2) sub by auto
        qed
      qed
      then show ?thesis using True lt agree by (simp add: siftdown_loop_step)
    qed
  qed
qed

lemma smaller_child_cong:
  assumes "\<And>a b. a \<in> set h \<Longrightarrow> b \<in> set h \<Longrightarrow> lt a b = lt' a b" and "e = length h"
  shows "smaller_child lt h e pos = smaller_child lt' h e pos"
proof (cases "2 * pos + 2 < e")
  case True
  then have "h ! (2 * pos + 1) \<in> set h" "h ! (2 * pos + 2) \<in> set h"
    using assms(2) by simp_all
  then have "lt (h ! (2 * pos + 1)) (h ! (2 * pos + 2)) = lt' (h ! (2 * pos + 1)) (h ! (2 * pos + 2))"
    by (rule assms(1))
  then show ?thesis by (simp add: smaller_child_def)
next
  case False
  then show ?thesis by (simp add: smaller_child_def)
qed

lemma siftup_loop_cong:
  assumes "\<And>a b. a \<in> set h \<Longrightarrow> b \<in> set h \<Longrightarrow> lt a b = lt' a b" and "e = length h"
  shows "siftup_loop lt h e pos = siftup_loop lt' h e pos"
  using assms
proof (induction "e - pos" arbitrary: h pos rule: less_induct)
  case less
  show ?case
  proof (cases "2 * pos + 1 < e")
    case False
    then show ?thesis by (simp add: siftup_loop_leaf)
  next
    case True
    let ?c = "smaller_child lt h e pos"
    note c = smaller_child_cases[OF True, of lt h]
    have ceq: "smaller_child lt' h e pos = ?c"
      using smaller_child_cong[of h lt lt' e pos] less.prems by simp
    have cl: "?c < length h" using c less.prems(2) by simp
    have sub: "set (h[pos := h ! ?c]) \<subseteq> set h" using cl by (rule set_update_nth_subset)
    have "siftup_loop lt (h[pos := h ! ?c]) e ?c = siftup_loop lt' (h[pos := h ! ?c]) e ?c"
    proof (rule less.hyps)
      show "e - ?c < e - pos" using c by (simp add: diff_less_mono2)
      show "e = length (h[pos := h ! ?c])" using less.prems(2) by simp
      show "lt a b = lt' a b"
        if "a \<in> set (h[pos := h ! ?c])" "b \<in> set (h[pos := h ! ?c])" for a b
      proof (rule less.prems(1))
        show "a \<in> set h" using that(1) sub by auto
        show "b \<in> set h" using that(2) sub by auto
      qed
    qed
    then show ?thesis
      by (simp only: siftup_loop_step[OF True] ceq)
  qed
qed

lemma siftup_cong:
  assumes agree: "\<And>a b. a \<in> set h \<Longrightarrow> b \<in> set h \<Longrightarrow> lt a b = lt' a b" and pos: "pos < length h"
  shows "siftup lt h pos = siftup lt' h pos"
proof -
  obtain h1 pos1 where r: "siftup_loop lt h (length h) pos = (h1, pos1)"
    by (cases "siftup_loop lt h (length h) pos")
  have r': "siftup_loop lt' h (length h) pos = (h1, pos1)"
    using siftup_loop_cong[of h lt lt' "length h" pos] agree r by simp
  have l: "length h1 = length h" using length_siftup_loop[OF r] .
  have p: "pos1 < length h" using siftup_loop_pos[OF r refl pos] .
  let ?h2 = "h1[pos1 := h ! pos]"
  have "mset ?h2 = mset (h[pos := h ! pos])" using mset_siftup_loop[OF r refl pos] .
  then have "mset ?h2 = mset h" by simp
  then have "set_mset (mset ?h2) = set_mset (mset h)" by (rule arg_cong)
  then have set2: "set ?h2 = set h" by simp
  have x: "h ! pos \<in> set h" using pos by simp
  have "siftdown_loop lt ?h2 pos pos1 (h ! pos) = siftdown_loop lt' ?h2 pos pos1 (h ! pos)"
  proof (rule siftdown_loop_cong)
    show "pos1 < length ?h2" using p l by simp
    show "lt a b = lt' a b"
      if "a \<in> insert (h ! pos) (set ?h2)" "b \<in> insert (h ! pos) (set ?h2)" for a b
    proof (rule agree)
      show "a \<in> set h" using that(1) x by (auto simp only: set2)
      show "b \<in> set h" using that(2) x by (auto simp only: set2)
    qed
  qed
  then show ?thesis
    using r r' p l by (simp add: siftup_def Let_def siftdown_def)
qed

lemma heappush_cong:
  assumes "\<And>a b. a \<in> insert x (set h) \<Longrightarrow> b \<in> insert x (set h) \<Longrightarrow> lt a b = lt' a b"
  shows "heappush lt h x = heappush lt' h x"
proof -
  have "siftdown_loop lt (h @ [x]) 0 (length h) x = siftdown_loop lt' (h @ [x]) 0 (length h) x"
  proof (rule siftdown_loop_cong)
    show "length h < length (h @ [x])" by simp
    show "lt a b = lt' a b"
      if "a \<in> insert x (set (h @ [x]))" "b \<in> insert x (set (h @ [x]))" for a b
      using that by (intro assms) auto
  qed
  then show ?thesis by (simp add: heappush_def Let_def siftdown_def)
qed

lemma heappop_cong:
  assumes agree: "\<And>a b. a \<in> set h \<Longrightarrow> b \<in> set h \<Longrightarrow> lt a b = lt' a b"
  shows "heappop lt h = heappop lt' h"
proof (cases "h = [] \<or> butlast h = []")
  case True
  show ?thesis
  proof (cases "h = []")
    case True
    then show ?thesis by simp
  next
    case False
    then show ?thesis using True by (simp add: heappop_unfold)
  qed
next
  case False
  then have ne: "h \<noteq> []" and nb: "butlast h \<noteq> []" by auto
  let ?h2 = "(butlast h)[0 := last h]"
  have "length (butlast h) \<noteq> 0" using nb by (simp del: length_butlast)
  then have l2: "Suc 0 < length h" by simp
  have sub: "set ?h2 \<subseteq> set h"
  proof -
    have "set ?h2 \<subseteq> insert (last h) (set (butlast h))" by (rule set_update_subset_insert)
    moreover have "last h \<in> set h" using ne by simp
    moreover have "set (butlast h) \<subseteq> set h" by (auto dest: in_set_butlastD)
    ultimately show ?thesis by auto
  qed
  have "siftup lt ?h2 0 = siftup lt' ?h2 0"
  proof (rule siftup_cong)
    show "0 < length ?h2" using l2 by simp
    show "lt a b = lt' a b" if "a \<in> set ?h2" "b \<in> set ?h2" for a b
    proof (rule agree)
      show "a \<in> set h" using that(1) sub by auto
      show "b \<in> set h" using that(2) sub by auto
    qed
  qed
  then show ?thesis using ne nb by (simp add: heappop_unfold)
qed

lemma heap_inv_heappush_agree:
  assumes "heap_inv k h"
    and "\<And>a b. a \<in> insert x (set h) \<Longrightarrow> b \<in> insert x (set h) \<Longrightarrow> lt a b = (k a < k b)"
  shows "heap_inv k (heappush lt h x)"
proof -
  have "heappush lt h x = heappush (key_lt k) h x"
    by (rule heappush_cong) (rule assms(2))
  then show ?thesis using heap_inv_heappush[OF assms(1), of x] by simp
qed

lemma heap_inv_heappop_agree:
  assumes "heap_inv k h" and "heappop lt h = Some (a, h')"
    and "\<And>a b. a \<in> set h \<Longrightarrow> b \<in> set h \<Longrightarrow> lt a b = (k a < k b)"
  shows "heap_inv k h'"
proof -
  have "heappop lt h = heappop (key_lt k) h"
    by (rule heappop_cong) (rule assms(3))
  then have "heappop (key_lt k) h = Some (a, h')" using assms(2) by simp
  then show ?thesis using heap_inv_heappop_key[OF assms(1)] by simp
qed

subsection \<open>The operations preserve the invariant\<close>


lemma pq_invar_iff:
  "pq_invar q \<longleftrightarrow>
     distinct (heap q) \<and>
     (\<forall>a. a \<in> set (heap q) \<longrightarrow> a < length (objs q)) \<and>
     (\<forall>a. a \<in> set (heap q) \<longrightarrow> entry_count (objs q) a < counter q) \<and>
     distinct (map (entry_count (objs q)) (heap q)) \<and>
     distinct (map fst (entry_finder q)) \<and>
     (\<forall>n a. (n, a) \<in> set (entry_finder q) \<longrightarrow> a \<in> set (heap q)) \<and>
     (\<forall>n a. (n, a) \<in> set (entry_finder q) \<longrightarrow> entry_node (objs q) a = Some n) \<and>
     (\<forall>n a. a \<in> set (heap q) \<longrightarrow> entry_node (objs q) a = Some n \<longrightarrow>
           (n, a) \<in> set (entry_finder q))"
proof -
  have 1: "list_all (\<lambda>a. a < length (objs q) \<and> entry_count (objs q) a < counter q) (heap q) \<longleftrightarrow>
      (\<forall>a. a \<in> set (heap q) \<longrightarrow> a < length (objs q)) \<and>
      (\<forall>a. a \<in> set (heap q) \<longrightarrow> entry_count (objs q) a < counter q)"
    unfolding list_all_iff by blast
  have 2: "list_all (\<lambda>(n, a). a \<in> set (heap q) \<and> entry_node (objs q) a = Some n) (entry_finder q) \<longleftrightarrow>
      (\<forall>n a. (n, a) \<in> set (entry_finder q) \<longrightarrow> a \<in> set (heap q)) \<and>
      (\<forall>n a. (n, a) \<in> set (entry_finder q) \<longrightarrow> entry_node (objs q) a = Some n)"
    unfolding list_all_iff by fast
  have 3: "list_all (\<lambda>a. case entry_node (objs q) a of None \<Rightarrow> True
                    | Some n \<Rightarrow> (n, a) \<in> set (entry_finder q)) (heap q) \<longleftrightarrow>
      (\<forall>n a. a \<in> set (heap q) \<longrightarrow> entry_node (objs q) a = Some n \<longrightarrow>
           (n, a) \<in> set (entry_finder q))"
    unfolding list_all_iff by (auto split: option.splits)
  show ?thesis unfolding pq_invar_def 1 2 3 by (simp only: conj_assoc)
qed

lemma pq_invarD:
  assumes "pq_invar q"
  shows "distinct (heap q)"
    and "\<And>a. a \<in> set (heap q) \<Longrightarrow> a < length (objs q)"
    and "\<And>a. a \<in> set (heap q) \<Longrightarrow> entry_count (objs q) a < counter q"
    and "distinct (map (entry_count (objs q)) (heap q))"
    and "distinct (map fst (entry_finder q))"
    and "\<And>n a. (n, a) \<in> set (entry_finder q) \<Longrightarrow> a \<in> set (heap q)"
    and "\<And>n a. (n, a) \<in> set (entry_finder q) \<Longrightarrow> entry_node (objs q) a = Some n"
    and "\<And>n a. a \<in> set (heap q) \<Longrightarrow> entry_node (objs q) a = Some n \<Longrightarrow>
           (n, a) \<in> set (entry_finder q)"
  using assms unfolding pq_invar_iff by blast+

lemma pq_invarI:
  assumes "distinct (heap q)"
    and "\<And>a. a \<in> set (heap q) \<Longrightarrow> a < length (objs q)"
    and "\<And>a. a \<in> set (heap q) \<Longrightarrow> entry_count (objs q) a < counter q"
    and "distinct (map (entry_count (objs q)) (heap q))"
    and "distinct (map fst (entry_finder q))"
    and "\<And>n a. (n, a) \<in> set (entry_finder q) \<Longrightarrow> a \<in> set (heap q)"
    and "\<And>n a. (n, a) \<in> set (entry_finder q) \<Longrightarrow> entry_node (objs q) a = Some n"
    and "\<And>n a. a \<in> set (heap q) \<Longrightarrow> entry_node (objs q) a = Some n \<Longrightarrow>
           (n, a) \<in> set (entry_finder q)"
  shows "pq_invar q"
  unfolding pq_invar_iff using assms by blast

lemma pq_invar_init: "pq_invar PriorityQueue_init"
  by (simp add: pq_invar_def PriorityQueue_init_def)

lemma pq_invar_clear: "pq_invar (PriorityQueue_clear q)"
  by (simp add: pq_invar_def PriorityQueue_clear_def)

lemma finder_unique:
  assumes "distinct (map fst ef)" "(n, a) \<in> set ef" "(n, b) \<in> set ef"
  shows "a = b"
  using assms by (rule eq_key_imp_eq_value)

lemma map_of_finder:
  "distinct (map fst ef) \<Longrightarrow> (map_of ef n = Some a) = ((n, a) \<in> set ef)"
  by (auto dest: map_of_SomeD)

lemma set_delete: "set (AList.delete n ef) = {p \<in> set ef. fst p \<noteq> n}"
  by (auto simp: AList.delete_eq)

lemma update_fresh: "n \<notin> fst ` set ef \<Longrightarrow> AList.update n a ef = ef @ [(n, a)]"
  by (induction ef) auto


lemma nth_tombstone:
  "fst (os[a := (fst (os ! a), fst (snd (os ! a)), None)] ! b) = fst (os ! b) \<and>
   fst (snd (os[a := (fst (os ! a), fst (snd (os ! a)), None)] ! b)) = fst (snd (os ! b))"
proof (cases "a < length os \<and> a = b")
  case True
  then show ?thesis by simp
next
  case False
  then show ?thesis by (cases "a < length os") (auto simp: list_update_beyond)
qed

lemma entry_tombstone [simp]:
  "entry_key (os[a := (entry_priority os a, entry_count os a, None)]) b = entry_key os b"
  "entry_count (os[a := (entry_priority os a, entry_count os a, None)]) b = entry_count os b"
  "entry_priority (os[a := (entry_priority os a, entry_count os a, None)]) b = entry_priority os b"
  using nth_tombstone[of os a b]
  by (simp_all add: entry_key_def entry_count_def entry_priority_def)

lemma entry_node_tombstone:
  "a < length os \<Longrightarrow>
   entry_node (os[a := (p, c, None)]) b = (if b = a then None else entry_node os b)"
  by (simp add: entry_node_def)

lemma entry_append [simp]:
  "b < length os \<Longrightarrow> entry_key (os @ [e]) b = entry_key os b"
  "b < length os \<Longrightarrow> entry_count (os @ [e]) b = entry_count os b"
  "b < length os \<Longrightarrow> entry_priority (os @ [e]) b = entry_priority os b"
  "b < length os \<Longrightarrow> entry_node (os @ [e]) b = entry_node os b"
  by (simp_all add: entry_key_def entry_count_def entry_priority_def entry_node_def nth_append)

lemma entry_append_new [simp]:
  "entry_key (os @ [(p, c, n)]) (length os) = (number_of p, c)"
  "entry_count (os @ [(p, c, n)]) (length os) = c"
  "entry_priority (os @ [(p, c, n)]) (length os) = p"
  "entry_node (os @ [(p, c, n)]) (length os) = n"
  by (simp_all add: entry_key_def entry_count_def entry_priority_def entry_node_def)

lemma PriorityQueue_remove_Inr:
  assumes "PriorityQueue_remove q n = Inr q'"
  obtains a where "map_of (entry_finder q) n = Some a"
    and "q' = q\<lparr>entry_finder := AList.delete n (entry_finder q),
                 objs := (objs q)[a := (entry_priority (objs q) a, entry_count (objs q) a, None)]\<rparr>"
  using assms by (auto simp: PriorityQueue_remove_def split: option.splits)

lemma pq_invar_remove:
  assumes inv: "pq_invar q" and rm: "PriorityQueue_remove q n = Inr q'"
  shows "pq_invar q'"
proof -
  note I = pq_invarD[OF inv]
  obtain a where a: "map_of (entry_finder q) n = Some a"
    and q': "q' = q\<lparr>entry_finder := AList.delete n (entry_finder q),
                 objs := (objs q)[a := (entry_priority (objs q) a, entry_count (objs q) a, None)]\<rparr>"
    using rm by (rule PriorityQueue_remove_Inr)
  have na: "(n, a) \<in> set (entry_finder q)" using a by (rule map_of_SomeD)
  have ah: "a \<in> set (heap q)" and an: "entry_node (objs q) a = Some n" and al: "a < length (objs q)"
    using I(6)[OF na] I(7)[OF na] I(2) by auto
  let ?os = "(objs q)[a := (entry_priority (objs q) a, entry_count (objs q) a, None)]"
  have node: "entry_node ?os b = (if b = a then None else entry_node (objs q) b)" for b
    using al by (rule entry_node_tombstone)
  show ?thesis
  proof (rule pq_invarI)
    show "distinct (heap q')" using I(1) by (simp add: q')
    show "\<And>b. b \<in> set (heap q') \<Longrightarrow> b < length (objs q')" using I(2) by (simp add: q')
    show "\<And>b. b \<in> set (heap q') \<Longrightarrow> entry_count (objs q') b < counter q'"
      using I(3) by (simp add: q')
    have "entry_count ?os = entry_count (objs q)" by (rule ext) simp
    then show "distinct (map (entry_count (objs q')) (heap q'))"
      using I(4) by (simp add: q')
    show "distinct (map fst (entry_finder q'))"
      using I(5) by (simp add: q' distinct_delete)
    show "\<And>m b. (m, b) \<in> set (entry_finder q') \<Longrightarrow> b \<in> set (heap q')"
      using I(6) by (auto simp: q' set_delete)
    show "entry_node (objs q') b = Some m" if "(m, b) \<in> set (entry_finder q')" for m b
    proof -
      have mb: "(m, b) \<in> set (entry_finder q)" and mn: "m \<noteq> n"
        using that by (auto simp: q' set_delete)
      have "entry_node (objs q) b = Some m" using I(7)[OF mb] .
      moreover from this an mn have "b \<noteq> a" by auto
      ultimately show ?thesis by (simp add: q' node)
    qed
    show "(m, b) \<in> set (entry_finder q')"
      if "b \<in> set (heap q')" "entry_node (objs q') b = Some m" for m b
    proof -
      have ba: "b \<noteq> a" and bm: "entry_node (objs q) b = Some m"
        using that(2) by (auto simp: q' node split: if_splits)
      have bh: "b \<in> set (heap q)" using that(1) by (simp add: q')
      have mb: "(m, b) \<in> set (entry_finder q)" using I(8)[OF bh bm] .
      have "m \<noteq> n" using finder_unique[OF I(5) mb] na ba by auto
      then show ?thesis using mb by (simp add: q' set_delete)
    qed
  qed
qed


lemma distinct_heappush:
  "distinct (heappush k h x) \<longleftrightarrow> x \<notin> set h \<and> distinct h"
proof -
  have "mset (heappush k h x) = mset (x # h)" by (simp add: mset_heappush)
  then have "distinct (heappush k h x) = distinct (x # h)" by (rule mset_eq_imp_distinct_iff)
  then show ?thesis by simp
qed

lemma distinct_map_heappush:
  "distinct (map f (heappush k h x)) \<longleftrightarrow> f x \<notin> f ` set h \<and> distinct (map f h)"
proof -
  have "mset (map f (heappush k h x)) = mset (map f (x # h))"
    by (simp add: mset_heappush)
  then have "distinct (map f (heappush k h x)) = distinct (map f (x # h))"
    by (rule mset_eq_imp_distinct_iff)
  then show ?thesis by simp
qed

lemma PriorityQueue_push_Inr:
  fixes q :: "('p::linorder, 'a) PriorityQueue"
  obtains q1 where
    "(if PriorityQueue_contains q n then PriorityQueue_remove q n else Inr q) = Inr q1"
    and "PriorityQueue_push q n p =
      Inr (q1\<lparr>counter := counter q1 + 1,
               objs := objs q1 @ [(p, counter q1, Some n)],
               entry_finder := AList.update n (length (objs q1)) (entry_finder q1),
               heap := heappush (entry_lt (objs q1 @ [(p, counter q1, Some n)])) (heap q1)
                         (length (objs q1))\<rparr>)"
proof (cases "PriorityQueue_contains q n")
  case False
  show ?thesis
    by (rule that[of q]) (simp_all add: False PriorityQueue_push_def Let_def)
next
  case True
  then have "map_of (entry_finder q) n \<noteq> None"
    by (simp add: PriorityQueue_contains_def map_of_eq_None_iff)
  then obtain q1 where r: "PriorityQueue_remove q n = Inr q1"
    by (auto simp: PriorityQueue_remove_def)
  show ?thesis
    by (rule that[of q1]) (simp_all add: True r PriorityQueue_push_def Let_def)
qed

lemma remove_not_contains:
  "PriorityQueue_remove q n = Inr q' \<Longrightarrow> \<not> PriorityQueue_contains q' n"
  by (erule PriorityQueue_remove_Inr) (auto simp: PriorityQueue_contains_def set_delete)

lemma pq_invar_push:
  fixes q :: "('p::linorder, 'a) PriorityQueue"
  assumes inv: "pq_invar q" and push: "PriorityQueue_push q n p = Inr q'"
  shows "pq_invar q'"
proof -
  obtain q1 where q1: "(if PriorityQueue_contains q n then PriorityQueue_remove q n else Inr q) = Inr q1"
    and eq: "PriorityQueue_push q n p =
      Inr (q1\<lparr>counter := counter q1 + 1,
               objs := objs q1 @ [(p, counter q1, Some n)],
               entry_finder := AList.update n (length (objs q1)) (entry_finder q1),
               heap := heappush (entry_lt (objs q1 @ [(p, counter q1, Some n)])) (heap q1)
                         (length (objs q1))\<rparr>)"
    by (rule PriorityQueue_push_Inr)
  have inv1: "pq_invar q1" and fresh: "\<not> PriorityQueue_contains q1 n"
    using q1 inv pq_invar_remove[of q n q1] remove_not_contains[of q n q1]
    by (auto split: if_splits)
  note I = pq_invarD[OF inv1]
  let ?a = "length (objs q1)"
  let ?os = "objs q1 @ [(p, counter q1, Some n)]"
  let ?h = "heappush (entry_lt ?os) (heap q1) ?a"
  have ef: "AList.update n ?a (entry_finder q1) = entry_finder q1 @ [(n, ?a)]"
    using fresh by (intro update_fresh) (simp add: PriorityQueue_contains_def)
  have q': "q' = q1\<lparr>counter := counter q1 + 1, objs := ?os,
               entry_finder := entry_finder q1 @ [(n, ?a)], heap := ?h\<rparr>"
    using push eq ef by simp
  have anew: "?a \<notin> set (heap q1)" using I(2) by auto
  have seth: "set ?h = insert ?a (set (heap q1))" by (rule set_heappush)
  have cnt: "map (entry_count ?os) (heap q1) = map (entry_count (objs q1)) (heap q1)"
    using I(2) by (intro map_cong) simp_all
  show ?thesis
  proof (rule pq_invarI)
    show "distinct (heap q')" using anew I(1) by (simp add: q' distinct_heappush)
    show "b < length (objs q')" if "b \<in> set (heap q')" for b
      using that I(2)[of b] by (auto simp: q' seth)
    show "entry_count (objs q') b < counter q'" if "b \<in> set (heap q')" for b
    proof (cases "b = ?a")
      case True
      then show ?thesis by (simp add: q')
    next
      case False
      then have "b \<in> set (heap q1)" using that by (simp add: q' seth)
      then show ?thesis using I(2)[of b] I(3)[of b] by (simp add: q')
    qed
    have "counter q1 \<notin> entry_count (objs q1) ` set (heap q1)"
    proof
      assume "counter q1 \<in> entry_count (objs q1) ` set (heap q1)"
      then obtain b where "b \<in> set (heap q1)" "counter q1 = entry_count (objs q1) b" by blast
      then show False using I(3)[of b] by simp
    qed
    moreover have "set (map (entry_count ?os) (heap q1)) = set (map (entry_count (objs q1)) (heap q1))"
      by (simp only: cnt)
    then have "entry_count ?os ` set (heap q1) = entry_count (objs q1) ` set (heap q1)"
      by simp
    ultimately have d2: "entry_count ?os ?a \<notin> entry_count ?os ` set (heap q1)"
      by simp
    have d1: "distinct (map (entry_count ?os) (heap q1))" using I(4) by (simp only: cnt)
    have "distinct (map (entry_count ?os) ?h)"
      unfolding distinct_map_heappush by (intro conjI d1 d2)
    then show "distinct (map (entry_count (objs q')) (heap q'))" by (simp add: q')
    have "n \<notin> fst ` set (entry_finder q1)"
      using fresh by (simp add: PriorityQueue_contains_def)
    then show "distinct (map fst (entry_finder q'))"
      by (simp add: q' I(5))
    show "b \<in> set (heap q')" if "(m, b) \<in> set (entry_finder q')" for m b
      using that I(6)[of m b] by (auto simp: q' seth)
    show "entry_node (objs q') b = Some m" if "(m, b) \<in> set (entry_finder q')" for m b
    proof (cases "(m, b) = (n, ?a)")
      case True
      then show ?thesis by (simp add: q')
    next
      case False
      then have mb: "(m, b) \<in> set (entry_finder q1)" using that by (auto simp: q')
      then have "b < ?a" using I(6)[OF mb] I(2) by simp
      then show ?thesis using I(7)[OF mb] by (simp add: q')
    qed
    show "(m, b) \<in> set (entry_finder q')"
      if "b \<in> set (heap q')" "entry_node (objs q') b = Some m" for m b
    proof (cases "b = ?a")
      case True
      then show ?thesis using that(2) by (simp add: q')
    next
      case False
      then have bh: "b \<in> set (heap q1)" using that(1) by (simp add: q' seth)
      then have "entry_node (objs q1) b = Some m" using that(2) I(2)[OF bh] by (simp add: q')
      then show ?thesis using I(8)[OF bh] by (simp add: q')
    qed
  qed
qed

subsection \<open>The order of the heap\<close>

lemma entry_lt_key:
  fixes os :: "('p::linorder, 'a) entry list"
  assumes "entry_priority os a \<noteq> NaN" "entry_priority os b \<noteq> NaN"
  shows "entry_lt os a b = (entry_key os a < entry_key os b)"
proof -
  obtain x where x: "entry_priority os a = Num x" using assms(1) by (cases "entry_priority os a") auto
  obtain y where y: "entry_priority os b = Num y" using assms(2) by (cases "entry_priority os b") auto
  show ?thesis
    by (auto simp: entry_lt_def entry_key_def x y less_prod_def)
qed

lemma pq_orderedD:
  assumes "pq_ordered q"
  shows "\<And>a. a \<in> set (heap q) \<Longrightarrow> entry_priority (objs q) a \<noteq> NaN"
    and "heap_inv (entry_key (objs q)) (heap q)"
  using assms by (auto simp: pq_ordered_def list_all_iff)

lemma pq_orderedI:
  assumes "\<And>a. a \<in> set (heap q) \<Longrightarrow> entry_priority (objs q) a \<noteq> NaN"
    and "heap_inv (entry_key (objs q)) (heap q)"
  shows "pq_ordered q"
  using assms by (auto simp: pq_ordered_def list_all_iff)

lemma pq_ordered_init: "pq_ordered PriorityQueue_init"
  by (simp add: pq_ordered_def PriorityQueue_init_def heap_inv_def)

lemma pq_ordered_clear: "pq_ordered (PriorityQueue_clear q)"
  by (simp add: pq_ordered_def PriorityQueue_clear_def heap_inv_def)

lemma pq_ordered_remove:
  assumes ord: "pq_ordered q" and rm: "PriorityQueue_remove q n = Inr q'"
  shows "pq_ordered q'"
proof -
  note O = pq_orderedD[OF ord]
  obtain a where q': "q' = q\<lparr>entry_finder := AList.delete n (entry_finder q),
                 objs := (objs q)[a := (entry_priority (objs q) a, entry_count (objs q) a, None)]\<rparr>"
    using rm by (rule PriorityQueue_remove_Inr)
  let ?os = "(objs q)[a := (entry_priority (objs q) a, entry_count (objs q) a, None)]"
  show ?thesis
  proof (rule pq_orderedI)
    show "entry_priority (objs q') b \<noteq> NaN" if "b \<in> set (heap q')" for b
      using that O(1)[of b] by (simp add: q')
    have "entry_key ?os = entry_key (objs q)" by (rule ext) simp
    then show "heap_inv (entry_key (objs q')) (heap q')"
      using O(2) by (simp add: q')
  qed
qed

lemma pq_ordered_push:
  fixes q :: "('p::linorder, 'a) PriorityQueue"
  assumes inv: "pq_invar q" and ord: "pq_ordered q"
    and push: "PriorityQueue_push q n (Num x) = Inr q'"
  shows "pq_ordered q'"
proof -
  obtain q1 where q1: "(if PriorityQueue_contains q n then PriorityQueue_remove q n else Inr q) = Inr q1"
    and eq: "PriorityQueue_push q n (Num x) =
      Inr (q1\<lparr>counter := counter q1 + 1,
               objs := objs q1 @ [(Num x, counter q1, Some n)],
               entry_finder := AList.update n (length (objs q1)) (entry_finder q1),
               heap := heappush (entry_lt (objs q1 @ [(Num x, counter q1, Some n)])) (heap q1)
                         (length (objs q1))\<rparr>)"
    by (rule PriorityQueue_push_Inr)
  have inv1: "pq_invar q1" and ord1: "pq_ordered q1"
    using q1 inv ord pq_invar_remove[of q n q1] pq_ordered_remove[of q n q1]
    by (auto split: if_splits)
  note I = pq_invarD[OF inv1]
  note O = pq_orderedD[OF ord1]
  let ?a = "length (objs q1)"
  let ?os = "objs q1 @ [(Num x, counter q1, Some n)]"
  let ?h = "heappush (entry_lt ?os) (heap q1) ?a"
  have q': "q' = q1\<lparr>counter := counter q1 + 1, objs := ?os,
               entry_finder := AList.update n ?a (entry_finder q1), heap := ?h\<rparr>"
    using push eq by simp
  have num: "entry_priority ?os b \<noteq> NaN" if "b \<in> insert ?a (set (heap q1))" for b
  proof (cases "b = ?a")
    case True
    then show ?thesis by simp
  next
    case False
    then have b: "b \<in> set (heap q1)" using that by simp
    then show ?thesis using O(1)[OF b] I(2)[OF b] by simp
  qed
  have "heap_inv (entry_key ?os) (heap q1) = heap_inv (entry_key (objs q1)) (heap q1)"
    using I(2) by (intro heap_inv_cong) simp
  then have hi: "heap_inv (entry_key ?os) (heap q1)" using O(2) by simp
  have "heap_inv (entry_key ?os) ?h"
    using hi
  proof (rule heap_inv_heappush_agree)
    show "entry_lt ?os b c = (entry_key ?os b < entry_key ?os c)"
      if "b \<in> insert ?a (set (heap q1))" "c \<in> insert ?a (set (heap q1))" for b c
      using num[OF that(1)] num[OF that(2)] by (rule entry_lt_key)
  qed
  moreover have "entry_priority ?os b \<noteq> NaN" if "b \<in> set ?h" for b
    using that num[of b] by (simp add: set_heappush)
  ultimately show ?thesis
    by (intro pq_orderedI) (simp_all add: q')
qed

lemma pq_ordered_heappop:
  fixes q :: "('p::linorder, 'a) PriorityQueue"
  assumes ord: "pq_ordered q" and pop: "heappop (entry_lt (objs q)) (heap q) = Some (a, h1)"
  shows "pq_ordered (q\<lparr>heap := h1\<rparr>)"
    and "\<And>b. b \<in> set (heap q) \<Longrightarrow> entry_key (objs q) a \<le> entry_key (objs q) b"
proof -
  note O = pq_orderedD[OF ord]
  have ne: "heap q \<noteq> []" using pop by auto
  obtain h2 where pop2: "heappop (entry_lt (objs q)) (heap q) = Some (heap q ! 0, h2)"
    and ms: "mset (heap q) = add_mset (heap q ! 0) (mset h2)"
    using heappop_Some[OF ne, of "entry_lt (objs q)"] by metis
  have a: "a = heap q ! 0" and h: "h2 = h1" using pop pop2 by simp_all
  have "set_mset (mset (heap q)) = set_mset (add_mset (heap q ! 0) (mset h2))"
    using ms by (rule arg_cong)
  then have sub: "set h1 \<subseteq> set (heap q)" using h by auto
  have agree: "entry_lt (objs q) b c = (entry_key (objs q) b < entry_key (objs q) c)"
    if "b \<in> set (heap q)" "c \<in> set (heap q)" for b c
    using O(1)[OF that(1)] O(1)[OF that(2)] by (rule entry_lt_key)
  have hi: "heap_inv (entry_key (objs q)) h1"
    using O(2) pop agree by (rule heap_inv_heappop_agree)
  show "pq_ordered (q\<lparr>heap := h1\<rparr>)"
  proof (rule pq_orderedI)
    show "entry_priority (objs (q\<lparr>heap := h1\<rparr>)) b \<noteq> NaN" if "b \<in> set (heap (q\<lparr>heap := h1\<rparr>))" for b
      using that sub O(1)[of b] by auto
    show "heap_inv (entry_key (objs (q\<lparr>heap := h1\<rparr>))) (heap (q\<lparr>heap := h1\<rparr>))"
      using hi by simp
  qed
  show "entry_key (objs q) a \<le> entry_key (objs q) b" if b: "b \<in> set (heap q)" for b
  proof -
    obtain i where "i < length (heap q)" "heap q ! i = b"
      using b by (auto simp: in_set_conv_nth)
    then show ?thesis using heap_inv_min[OF O(2), of i] a by simp
  qed
qed

lemma pq_ordered_finder [simp]:
  "pq_ordered (q\<lparr>entry_finder := ef\<rparr>) = pq_ordered q"
  by (simp add: pq_ordered_def)

subsection \<open>What \<open>pop\<close> and \<open>peek\<close> return\<close>

lemma PriorityQueue_pop_empty:
  "heap q = [] \<Longrightarrow> PriorityQueue_pop q = (Inl KeyError, q)"
  by (subst PriorityQueue_pop.simps) simp

lemma PriorityQueue_pop_tombstone:
  "heappop (entry_lt (objs q)) (heap q) = Some (a, h1) \<Longrightarrow> entry_node (objs q) a = None \<Longrightarrow>
   PriorityQueue_pop q = PriorityQueue_pop (q\<lparr>heap := h1\<rparr>)"
  by (subst PriorityQueue_pop.simps) (auto simp: Let_def)

lemma PriorityQueue_pop_live:
  "heappop (entry_lt (objs q)) (heap q) = Some (a, h1) \<Longrightarrow> entry_node (objs q) a = Some n \<Longrightarrow>
   n \<in> fst ` set (entry_finder q) \<Longrightarrow>
   PriorityQueue_pop q =
     (Inr n, q\<lparr>heap := h1, entry_finder := AList.delete n (entry_finder q)\<rparr>)"
  by (subst PriorityQueue_pop.simps) (auto simp: Let_def)

text \<open>What \<open>heappop\<close> does to the heap of a queue that satisfies the invariant.\<close>

lemma pq_heappop:
  assumes inv: "pq_invar q" and ne: "heap q \<noteq> []"
  obtains a h1 where "heappop (entry_lt (objs q)) (heap q) = Some (a, h1)"
    and "a \<in> set (heap q)" and "a \<notin> set h1" and "set h1 = set (heap q) - {a}"
    and "distinct h1"
    and "distinct (map (entry_count (objs q)) h1)"
proof -
  note I = pq_invarD[OF inv]
  let ?lt = "entry_lt (objs q)"
  obtain h1 where pop: "heappop ?lt (heap q) = Some (heap q ! 0, h1)"
    and ms: "mset (heap q) = add_mset (heap q ! 0) (mset h1)"
    using heappop_Some[OF ne, of ?lt] by metis
  let ?a = "heap q ! 0"
  have "mset (heap q) = mset (?a # h1)" using ms by simp
  then have d: "distinct (?a # h1)" and s: "set (heap q) = set (?a # h1)"
    and dc: "distinct (map (entry_count (objs q)) (?a # h1))"
    using I(1) I(4) mset_eq_imp_distinct_iff mset_eq_setD
      mset_eq_imp_distinct_iff[of "map (entry_count (objs q)) (heap q)" "map (entry_count (objs q)) (?a # h1)"]
    by (blast, blast, simp)
  show ?thesis
  proof (rule that[of ?a h1])
    show "heappop ?lt (heap q) = Some (?a, h1)" by (rule pop)
    show "?a \<in> set (heap q)" using ne by simp
    show "?a \<notin> set h1" using d by simp
    show "set h1 = set (heap q) - {?a}" using d s by auto
    show "distinct h1" using d by simp
    show "distinct (map (entry_count (objs q)) h1)" using dc by simp
  qed
qed

lemma set_live_entries:
  "set (live_entries q) = {a \<in> set (heap q). entry_node (objs q) a \<noteq> None}"
  by (simp add: live_entries_def)

lemma pq_invar_shrink:
  assumes inv: "pq_invar q"
    and h1: "set h1 \<subseteq> set (heap q)" "distinct h1"
      "distinct (map (entry_count (objs q)) h1)"
    and ef: "distinct (map fst ef)" "set ef \<subseteq> set (entry_finder q)"
    and fwd: "\<And>m b. (m, b) \<in> set ef \<Longrightarrow> b \<in> set h1"
    and bwd: "\<And>m b. b \<in> set h1 \<Longrightarrow> entry_node (objs q) b = Some m \<Longrightarrow> (m, b) \<in> set ef"
  shows "pq_invar (q\<lparr>heap := h1, entry_finder := ef\<rparr>)"
proof -
  note I = pq_invarD[OF inv]
  let ?q = "q\<lparr>heap := h1, entry_finder := ef\<rparr>"
  show ?thesis
  proof (rule pq_invarI)
    show "distinct (heap ?q)" using h1(2) by simp
    show "b < length (objs ?q)" if "b \<in> set (heap ?q)" for b
      using that h1(1) I(2)[of b] by auto
    show "entry_count (objs ?q) b < counter ?q" if "b \<in> set (heap ?q)" for b
      using that h1(1) I(3)[of b] by auto
    show "distinct (map (entry_count (objs ?q)) (heap ?q))" using h1(3) by simp
    show "distinct (map fst (entry_finder ?q))" using ef(1) by simp
    show "b \<in> set (heap ?q)" if "(m, b) \<in> set (entry_finder ?q)" for m b
      using that fwd[of m b] by simp
    show "entry_node (objs ?q) b = Some m" if "(m, b) \<in> set (entry_finder ?q)" for m b
      using that ef(2) I(7)[of m b] by auto
    show "(m, b) \<in> set (entry_finder ?q)"
      if "b \<in> set (heap ?q)" "entry_node (objs ?q) b = Some m" for m b
      using that bwd[of b m] by simp
  qed
qed

lemma pq_invar_drop_tombstone:
  assumes inv: "pq_invar q"
    and h1: "set h1 = set (heap q) - {a}" "distinct h1"
      "distinct (map (entry_count (objs q)) h1)"
    and dead: "entry_node (objs q) a = None"
  shows "pq_invar (q\<lparr>heap := h1\<rparr>)"
    and "set (live_entries (q\<lparr>heap := h1\<rparr>)) = set (live_entries q)"
proof -
  note I = pq_invarD[OF inv]
  have "pq_invar (q\<lparr>heap := h1, entry_finder := entry_finder q\<rparr>)"
  proof (rule pq_invar_shrink[OF inv _ h1(2,3) I(5)])
    show "set h1 \<subseteq> set (heap q)" using h1(1) by auto
    show "set (entry_finder q) \<subseteq> set (entry_finder q)" by simp
    show "b \<in> set h1" if mb: "(m, b) \<in> set (entry_finder q)" for m b
    proof -
      have "entry_node (objs q) b = Some m" using I(7)[OF mb] .
      then have "b \<noteq> a" using dead by auto
      then show ?thesis using I(6)[OF mb] h1(1) by simp
    qed
    show "(m, b) \<in> set (entry_finder q)"
      if "b \<in> set h1" "entry_node (objs q) b = Some m" for m b
      using that h1(1) I(8)[of b m] by simp
  qed
  moreover have "q\<lparr>heap := h1, entry_finder := entry_finder q\<rparr> = q\<lparr>heap := h1\<rparr>"
    by simp
  ultimately show "pq_invar (q\<lparr>heap := h1\<rparr>)" by (simp only:)
  have "(b \<in> set h1 \<and> entry_node (objs q) b \<noteq> None) =
        (b \<in> set (heap q) \<and> entry_node (objs q) b \<noteq> None)" for b
    using dead by (cases "b = a") (simp_all add: h1(1))
  then show "set (live_entries (q\<lparr>heap := h1\<rparr>)) = set (live_entries q)"
    by (simp add: set_live_entries)
qed

lemma pq_invar_pop_live:
  assumes inv: "pq_invar q"
    and a: "a \<in> set (heap q)"
    and h1: "set h1 = set (heap q) - {a}" "distinct h1"
      "distinct (map (entry_count (objs q)) h1)"
    and live: "entry_node (objs q) a = Some n"
  shows "n \<in> fst ` set (entry_finder q)"
    and "pq_invar (q\<lparr>heap := h1, entry_finder := AList.delete n (entry_finder q)\<rparr>)"
    and "set (live_entries (q\<lparr>heap := h1, entry_finder := AList.delete n (entry_finder q)\<rparr>)) =
         set (live_entries q) - {a}"
proof -
  note I = pq_invarD[OF inv]
  let ?q = "q\<lparr>heap := h1, entry_finder := AList.delete n (entry_finder q)\<rparr>"
  have na: "(n, a) \<in> set (entry_finder q)" using I(8)[OF a live] .
  then show "n \<in> fst ` set (entry_finder q)" by force
  show "pq_invar ?q"
  proof (rule pq_invar_shrink[OF inv _ h1(2,3)])
    show "set h1 \<subseteq> set (heap q)" using h1(1) by auto
    show "distinct (map fst (AList.delete n (entry_finder q)))"
      using I(5) by (simp add: distinct_delete)
    show "set (AList.delete n (entry_finder q)) \<subseteq> set (entry_finder q)"
      by (auto simp: set_delete)
    show "b \<in> set h1" if mb: "(m, b) \<in> set (AList.delete n (entry_finder q))" for m b
    proof -
      have mb': "(m, b) \<in> set (entry_finder q)" and mn: "m \<noteq> n"
        using mb by (auto simp: set_delete)
      have "entry_node (objs q) b = Some m" using I(7)[OF mb'] .
      then have "b \<noteq> a" using live mn by auto
      then show ?thesis using I(6)[OF mb'] h1(1) by simp
    qed
    show "(m, b) \<in> set (AList.delete n (entry_finder q))"
      if bh: "b \<in> set h1" and bm: "entry_node (objs q) b = Some m" for m b
    proof -
      have b: "b \<in> set (heap q)" "b \<noteq> a" using bh h1(1) by auto
      have mb: "(m, b) \<in> set (entry_finder q)" using I(8)[OF b(1) bm] .
      have "m \<noteq> n" using finder_unique[OF I(5) mb] na b(2) by auto
      then show ?thesis using mb by (simp add: set_delete)
    qed
  qed
  have "(b \<in> set h1 \<and> entry_node (objs q) b \<noteq> None) =
        ((b \<in> set (heap q) \<and> entry_node (objs q) b \<noteq> None) \<and> b \<noteq> a)" for b
    by (cases "b = a") (simp_all add: h1(1))
  then have "{b \<in> set h1. entry_node (objs q) b \<noteq> None} =
      {b \<in> set (heap q). entry_node (objs q) b \<noteq> None} - {a}"
    by blast
  then show "set (live_entries ?q) = set (live_entries q) - {a}"
    by (simp add: set_live_entries)
qed

lemma pop_post_tombstone:
  assumes "pop_post (q\<lparr>heap := h1\<rparr>) r"
    and "set (live_entries (q\<lparr>heap := h1\<rparr>)) = set (live_entries q)"
    and "pq_ordered q \<Longrightarrow> pq_ordered (q\<lparr>heap := h1\<rparr>)"
  shows "pop_post q r"
proof -
  have e: "(live_entries (q\<lparr>heap := h1\<rparr>) = []) = (live_entries q = [])"
    using assms(2) by (metis set_empty)
  show ?thesis
  proof (cases "fst r")
    case (Inl err)
    then show ?thesis
      using assms(1,3) unfolding pop_post_def assms(2) e by simp
  next
    case (Inr n)
    then obtain a where a: "a \<in> set (live_entries q)" "entry_node (objs q) a = Some n"
      "pq_ordered (q\<lparr>heap := h1\<rparr>) \<longrightarrow>
         (\<forall>b. b \<in> set (live_entries q) \<longrightarrow> entry_key (objs q) a \<le> entry_key (objs q) b)"
      "set (live_entries (snd r)) = set (live_entries q) - {a}"
      "entry_finder (snd r) = AList.delete n (entry_finder q)"
      using assms(1) unfolding pop_post_def assms(2) by auto
    have rest: "pq_invar (snd r)" "objs (snd r) = objs q" "counter (snd r) = counter q"
      "pq_ordered q \<longrightarrow> pq_ordered (snd r)"
      using assms(1,3) unfolding pop_post_def by auto
    have "\<exists>a. a \<in> set (live_entries q) \<and> entry_node (objs q) a = Some n \<and>
        (pq_ordered q \<longrightarrow>
           (\<forall>b. b \<in> set (live_entries q) \<longrightarrow> entry_key (objs q) a \<le> entry_key (objs q) b)) \<and>
        set (live_entries (snd r)) = set (live_entries q) - {a} \<and>
        entry_finder (snd r) = AList.delete n (entry_finder q)"
      using a assms(3) by (intro exI[of _ a]) simp
    then show ?thesis unfolding pop_post_def using rest Inr by simp
  qed
qed

lemma PriorityQueue_pop_post:
  fixes q :: "('p::linorder, 'a) PriorityQueue"
  assumes "pq_invar q"
  shows "pop_post q (PriorityQueue_pop q)"
  using assms
proof (induction "length (heap q)" arbitrary: q rule: less_induct)
  case less
  note inv = less.prems
  show ?case
  proof (cases "heap q = []")
    case True
    then show ?thesis
      using inv by (simp add: PriorityQueue_pop_empty pop_post_def live_entries_def)
  next
    case False
    obtain a h1 where pop: "heappop (entry_lt (objs q)) (heap q) = Some (a, h1)"
      and a: "a \<in> set (heap q)" and h1: "set h1 = set (heap q) - {a}" "distinct h1"
        "distinct (map (entry_count (objs q)) h1)"
      using pq_heappop[OF inv False] by metis
    note ord = pq_ordered_heappop[OF _ pop]
    show ?thesis
    proof (cases "entry_node (objs q) a")
      case None
      let ?q1 = "q\<lparr>heap := h1\<rparr>"
      have len: "length (heap ?q1) < length (heap q)"
        using heappop_length_less[OF pop] by simp
      have "pop_post ?q1 (PriorityQueue_pop ?q1)"
        using less.hyps[OF len] pq_invar_drop_tombstone(1)[OF inv h1 None] .
      then have "pop_post q (PriorityQueue_pop ?q1)"
        using pq_invar_drop_tombstone(2)[OF inv h1 None] ord(1) by (rule pop_post_tombstone)
      then show ?thesis by (simp only: PriorityQueue_pop_tombstone[OF pop None])
    next
      case (Some n)
      note L = pq_invar_pop_live[OF inv a h1 Some]
      have al: "a \<in> set (live_entries q)" using a Some by (simp add: set_live_entries)
      have m: "entry_key (objs q) a \<le> entry_key (objs q) b"
        if "pq_ordered q" "b \<in> set (live_entries q)" for b
        using that ord(2)[of b] by (simp add: set_live_entries)
      have o: "pq_ordered q \<longrightarrow>
          pq_ordered (q\<lparr>heap := h1, entry_finder := AList.delete n (entry_finder q)\<rparr>)"
      proof
        assume "pq_ordered q"
        then have "pq_ordered (q\<lparr>heap := h1\<rparr>)" by (rule ord(1))
        then show "pq_ordered (q\<lparr>heap := h1, entry_finder := AList.delete n (entry_finder q)\<rparr>)"
          by (simp add: pq_ordered_def)
      qed
      show ?thesis
        unfolding PriorityQueue_pop_live[OF pop Some L(1)] pop_post_def
        using L(2) L(3) al m Some o by (simp, intro exI[of _ a], simp)
    qed
  qed
qed

lemma heappop_hd: "heappop k h = Some (a, h1) \<Longrightarrow> a = h ! 0"
proof -
  assume p: "heappop k h = Some (a, h1)"
  then have "h \<noteq> []" by auto
  then obtain h2 where "heappop k h = Some (h ! 0, h2)"
    using heappop_Some[of h k] by metis
  with p show ?thesis by simp
qed

lemma PriorityQueue_peek_empty:
  "heap q = [] \<Longrightarrow> PriorityQueue_peek q = (Inr None, q)"
  by (subst PriorityQueue_peek.simps) simp

lemma PriorityQueue_peek_live:
  "heap q \<noteq> [] \<Longrightarrow> entry_node (objs q) (heap q ! 0) = Some n \<Longrightarrow>
   PriorityQueue_peek q = (Inr (Some n), q)"
  by (subst PriorityQueue_peek.simps) simp

lemma PriorityQueue_peek_tombstone:
  "heap q \<noteq> [] \<Longrightarrow> entry_node (objs q) (heap q ! 0) = None \<Longrightarrow>
   heappop (entry_lt (objs q)) (heap q) = Some (a, h1) \<Longrightarrow>
   PriorityQueue_peek q = PriorityQueue_peek (q\<lparr>heap := h1\<rparr>)"
  by (subst PriorityQueue_peek.simps) simp

lemma peek_post_tombstone:
  assumes "peek_post (q\<lparr>heap := h1\<rparr>) r"
    and "set (live_entries (q\<lparr>heap := h1\<rparr>)) = set (live_entries q)"
    and "pq_ordered q \<Longrightarrow> pq_ordered (q\<lparr>heap := h1\<rparr>)"
  shows "peek_post q r"
proof -
  have e: "(live_entries (q\<lparr>heap := h1\<rparr>) = []) = (live_entries q = [])"
    using assms(2) by (metis set_empty)
  have rest: "pq_invar (snd r)" "objs (snd r) = objs q" "counter (snd r) = counter q"
    "pq_ordered q \<longrightarrow> pq_ordered (snd r)" "entry_finder (snd r) = entry_finder q"
    "set (live_entries (snd r)) = set (live_entries q)"
    using assms unfolding peek_post_def by auto
  show ?thesis
  proof (cases "fst r")
    case (Inl e)
    then show ?thesis using assms(1) by (simp add: peek_post_def)
  next
    case (Inr v)
    show ?thesis
    proof (cases v)
      case None
      then show ?thesis
        using assms(1) Inr rest unfolding peek_post_def e by simp
    next
      case (Some n)
      then obtain a where a: "a \<in> set (live_entries q)" "entry_node (objs q) a = Some n"
        "pq_ordered (q\<lparr>heap := h1\<rparr>) \<longrightarrow>
           (\<forall>b. b \<in> set (live_entries q) \<longrightarrow> entry_key (objs q) a \<le> entry_key (objs q) b)"
        using assms(1) Inr unfolding peek_post_def assms(2) by auto
      have "\<exists>a. a \<in> set (live_entries q) \<and> entry_node (objs q) a = Some n \<and>
          (pq_ordered q \<longrightarrow>
             (\<forall>b. b \<in> set (live_entries q) \<longrightarrow> entry_key (objs q) a \<le> entry_key (objs q) b))"
        using a assms(3) by (intro exI[of _ a]) simp
      then show ?thesis unfolding peek_post_def using rest Inr Some by simp
    qed
  qed
qed

lemma PriorityQueue_peek_post:
  fixes q :: "('p::linorder, 'a) PriorityQueue"
  assumes "pq_invar q"
  shows "peek_post q (PriorityQueue_peek q)"
  using assms
proof (induction "length (heap q)" arbitrary: q rule: less_induct)
  case less
  note inv = less.prems
  show ?case
  proof (cases "heap q = []")
    case True
    then show ?thesis
      using inv by (simp add: PriorityQueue_peek_empty peek_post_def live_entries_def)
  next
    case False
    obtain a h1 where pop: "heappop (entry_lt (objs q)) (heap q) = Some (a, h1)"
      and a: "a \<in> set (heap q)" and h1: "set h1 = set (heap q) - {a}" "distinct h1"
        "distinct (map (entry_count (objs q)) h1)"
      using pq_heappop[OF inv False] by metis
    note ord = pq_ordered_heappop[OF _ pop]
    have a0: "heap q ! 0 = a" using heappop_hd[OF pop] by simp
    show ?thesis
    proof (cases "entry_node (objs q) a")
      case None
      let ?q1 = "q\<lparr>heap := h1\<rparr>"
      have len: "length (heap ?q1) < length (heap q)"
        using heappop_length_less[OF pop] by simp
      have "peek_post ?q1 (PriorityQueue_peek ?q1)"
        using less.hyps[OF len] pq_invar_drop_tombstone(1)[OF inv h1 None] .
      then have "peek_post q (PriorityQueue_peek ?q1)"
        using pq_invar_drop_tombstone(2)[OF inv h1 None] ord(1) by (rule peek_post_tombstone)
      moreover have "PriorityQueue_peek q = PriorityQueue_peek ?q1"
        using None a0 by (intro PriorityQueue_peek_tombstone[OF False _ pop]) simp
      ultimately show ?thesis by (simp only:)
    next
      case (Some n)
      have al: "a \<in> set (live_entries q)" using a Some by (simp add: set_live_entries)
      have m: "entry_key (objs q) a \<le> entry_key (objs q) b"
        if "pq_ordered q" "b \<in> set (live_entries q)" for b
        using that ord(2)[of b] by (simp add: set_live_entries)
      have "PriorityQueue_peek q = (Inr (Some n), q)"
        using Some a0 by (intro PriorityQueue_peek_live[OF False]) simp
      then show ?thesis
        unfolding peek_post_def
        using inv al m Some by (simp, intro exI[of _ a], simp)
    qed
  qed
qed

lemma distinct_singleton: "distinct xs \<Longrightarrow> set xs = {x} \<Longrightarrow> xs = [x]"
proof -
  assume d: "distinct xs" and s: "set xs = {x}"
  have "length xs = card (set xs)" using d by (simp add: distinct_card)
  then have "length xs = 1" using s by simp
  then obtain y where "xs = [y]" by (cases xs) auto
  with s show ?thesis by simp
qed

lemma set_live_for:
  "set (live_for q n) = {a \<in> set (heap q). entry_node (objs q) a = Some n}"
  by (simp add: live_for_def)

lemma pq_invar_live_for:
  assumes inv: "pq_invar q"
  shows "set (live_for q n) = {a. (n, a) \<in> set (entry_finder q)}" and "distinct (live_for q n)"
proof -
  note I = pq_invarD[OF inv]
  show "set (live_for q n) = {a. (n, a) \<in> set (entry_finder q)}"
    unfolding set_live_for using I(6)[of n] I(7)[of n] I(8)[of _ n] by blast
  show "distinct (live_for q n)" using I(1) by (simp add: live_for_def)
qed

lemma pq_invar_live_for_finder:
  assumes inv: "pq_invar q" and na: "(n, a) \<in> set (entry_finder q)"
  shows "live_for q n = [a]"
proof -
  note I = pq_invarD[OF inv]
  have "{b. (n, b) \<in> set (entry_finder q)} = {a}"
    using na finder_unique[OF I(5) _ na] by blast
  then show ?thesis
    using pq_invar_live_for[OF inv, of n] by (intro distinct_singleton) simp_all
qed

lemma pq_invar_contains:
  assumes inv: "pq_invar q"
  shows "PriorityQueue_contains q n \<longleftrightarrow> live_for q n \<noteq> []"
proof
  assume "PriorityQueue_contains q n"
  then obtain a where "(n, a) \<in> set (entry_finder q)"
    by (auto simp: PriorityQueue_contains_def)
  then show "live_for q n \<noteq> []" using pq_invar_live_for_finder[OF inv] by simp
next
  assume "live_for q n \<noteq> []"
  then obtain a where "a \<in> set (live_for q n)" by (cases "live_for q n") auto
  then have "(n, a) \<in> set (entry_finder q)" using pq_invar_live_for(1)[OF inv, of n] by simp
  then show "PriorityQueue_contains q n" by (force simp: PriorityQueue_contains_def)
qed

lemma pq_invar_len:
  assumes inv: "pq_invar q"
  shows "length (entry_finder q) = length (live_entries q)"
proof -
  note I = pq_invarD[OF inv]
  have inj: "inj_on snd (set (entry_finder q))"
  proof (rule inj_onI)
    fix x y assume x: "x \<in> set (entry_finder q)" and y: "y \<in> set (entry_finder q)"
      and e: "snd x = snd y"
    have "entry_node (objs q) (snd x) = Some (fst x)" using I(7)[of "fst x" "snd x"] x by simp
    moreover have "entry_node (objs q) (snd y) = Some (fst y)"
      using I(7)[of "fst y" "snd y"] y by simp
    ultimately have "fst x = fst y" using e by simp
    with e show "x = y" by (simp add: prod_eq_iff)
  qed
  have "distinct (entry_finder q)" using I(5) by (simp add: distinct_map)
  then have d: "distinct (map snd (entry_finder q))" using inj by (simp add: distinct_map)
  have s: "set (map snd (entry_finder q)) = set (live_entries q)"
  proof (intro set_eqI iffI)
    fix a assume "a \<in> set (map snd (entry_finder q))"
    then obtain n where na: "(n, a) \<in> set (entry_finder q)" by auto
    then show "a \<in> set (live_entries q)"
      using I(6)[OF na] I(7)[OF na] by (simp add: set_live_entries)
  next
    fix a assume "a \<in> set (live_entries q)"
    then obtain n where "a \<in> set (heap q)" "entry_node (objs q) a = Some n"
      by (auto simp: set_live_entries)
    then have "(n, a) \<in> set (entry_finder q)" by (rule I(8))
    then show "a \<in> set (map snd (entry_finder q))" by force
  qed
  have "distinct (live_entries q)" using I(1) by (simp add: live_entries_def)
  then have "length (live_entries q) = card (set (live_entries q))" by (simp add: distinct_card)
  also have "\<dots> = card (set (map snd (entry_finder q)))" by (simp only: s)
  also have "\<dots> = length (map snd (entry_finder q))" using d by (rule distinct_card)
  finally show ?thesis by simp
qed

lemma length_delete_distinct:
  assumes "distinct (map fst al)"
  shows "length (AList.delete k al) = (if k \<in> fst ` set al then length al - 1 else length al)"
proof -
  have "length (AList.delete k al) = length (map fst (AList.delete k al))" by simp
  also have "\<dots> = length (removeAll k (map fst al))" by (simp only: delete_keys)
  also have "\<dots> = length (remove1 k (map fst al))"
    using assms by (simp only: distinct_remove1_removeAll)
  finally show ?thesis by (simp add: length_remove1)
qed

lemma entry_key_le:
  fixes os :: "('p::linorder, 'a) entry list"
  assumes "entry_priority os a \<noteq> NaN" "entry_priority os b \<noteq> NaN"
  shows "entry_key os a \<le> entry_key os b \<longleftrightarrow>
     py_lt (entry_priority os a) (entry_priority os b) \<or>
     (py_eq (entry_priority os a) (entry_priority os b) \<and> entry_count os a \<le> entry_count os b)"
proof -
  obtain x where x: "entry_priority os a = Num x" using assms(1) by (cases "entry_priority os a") auto
  obtain y where y: "entry_priority os b = Num y" using assms(2) by (cases "entry_priority os b") auto
  show ?thesis
    by (auto simp: entry_key_def x y less_eq_prod_def)
qed

lemma pq_invar_finder_consistent:
  assumes "pq_invar q"
  shows "finder_consistent q" and "length (live_for q n) \<le> 1"
proof -
  show "finder_consistent q"
    unfolding finder_consistent_def list_all_iff
    using pq_invar_live_for_finder[OF assms] pq_invar_len[OF assms] by auto
  show "length (live_for q n) \<le> 1"
  proof (cases "PriorityQueue_contains q n")
    case True
    then obtain a where "(n, a) \<in> set (entry_finder q)"
      by (auto simp: PriorityQueue_contains_def)
    then show ?thesis using pq_invar_live_for_finder[OF assms] by simp
  next
    case False
    then show ?thesis using pq_invar_contains[OF assms, of n] by simp
  qed
qed

lemma no_live_pop_peek:
  fixes q :: "('p::linorder, 'a) PriorityQueue"
  assumes "live_entries q = []"
  shows "fst (PriorityQueue_pop q) = Inl KeyError \<and> fst (PriorityQueue_peek q) = Inr None"
  using assms
proof (induction "length (heap q)" arbitrary: q rule: less_induct)
  case less
  show ?case
  proof (cases "heap q = []")
    case True
    then show ?thesis by (simp add: PriorityQueue_pop_empty PriorityQueue_peek_empty)
  next
    case False
    then obtain h1 where pop: "heappop (entry_lt (objs q)) (heap q) = Some (heap q ! 0, h1)"
      and ms: "mset (heap q) = add_mset (heap q ! 0) (mset h1)"
      using heappop_Some[of "heap q" "entry_lt (objs q)"] by metis
    have dead: "entry_node (objs q) b = None" if "b \<in> set (heap q)" for b
      using less.prems that by (auto simp: live_entries_def filter_empty_conv)
    have d0: "entry_node (objs q) (heap q ! 0) = None" using False by (intro dead) simp
    have "set (heap q) = set (heap q ! 0 # h1)"
      using ms mset_eq_setD[of "heap q" "heap q ! 0 # h1"] by simp
    then have "set h1 \<subseteq> set (heap q)" by auto
    then have l1: "live_entries (q\<lparr>heap := h1\<rparr>) = []"
      using dead by (auto simp: live_entries_def filter_empty_conv)
    have len: "length (heap (q\<lparr>heap := h1\<rparr>)) < length (heap q)"
      using heappop_length_less[OF pop] by simp
    show ?thesis
      using less.hyps[OF len l1]
      by (simp add: PriorityQueue_pop_tombstone[OF pop d0]
          PriorityQueue_peek_tombstone[OF False d0 pop])
  qed
qed

lemma pq_reachable_invar:
  fixes q :: "('p::linorder, 'a) PriorityQueue"
  assumes "pq_reachable q"
  shows "pq_invar q"
  using assms
proof (induction rule: pq_reachable.induct)
  case init
  show ?case by (rule pq_invar_init)
next
  case (push q node priority q')
  then show ?case by (auto intro: pq_invar_push)
next
  case (remove q node q')
  then show ?case by (auto intro: pq_invar_remove)
next
  case (pop q)
  then show ?case using PriorityQueue_pop_post[of q] by (simp add: pop_post_def)
next
  case (peek q)
  then show ?case using PriorityQueue_peek_post[of q] by (simp add: peek_post_def)
next
  case (clear q)
  show ?case by (rule pq_invar_clear)
qed

lemma ex_queue_tomb_numbers: "pq_reachable_numbers ex_queue_tomb"
proof -
  let ?q1 = "\<lparr>objs = [(Num 1, 0, Some 10)], heap = [0], counter = 1,
              entry_finder = [(10, 0)]\<rparr> :: (int, nat) PriorityQueue"
  let ?q2 = "\<lparr>objs = [(Num 1, 0, Some 10), (Num 3, 1, Some 20)], heap = [0, 1], counter = 2,
              entry_finder = [(10, 0), (20, 1)]\<rparr> :: (int, nat) PriorityQueue"
  let ?q3 = "\<lparr>objs = [(Num 1, 0, Some 10), (Num 3, 1, Some 20), (Num 3, 2, Some 30)], heap = [0, 1, 2],
              counter = 3, entry_finder = [(10, 0), (20, 1), (30, 2)]\<rparr> :: (int, nat) PriorityQueue"
  have 1: "PriorityQueue_push PriorityQueue_init 10 (Num 1) = Inr ?q1" by code_simp
  have 2: "PriorityQueue_push ?q1 20 (Num 3) = Inr ?q2" by code_simp
  have 3: "PriorityQueue_push ?q2 30 (Num 3) = Inr ?q3" by code_simp
  have 4: "PriorityQueue_push ?q3 10 (Num 5) = Inr ex_queue_tomb" by code_simp
  have "pq_reachable_numbers ?q1" using pq_reachable_numbers.init 1 by (rule pq_reachable_numbers.push)
  then have "pq_reachable_numbers ?q2" using 2 by (rule pq_reachable_numbers.push)
  then have "pq_reachable_numbers ?q3" using 3 by (rule pq_reachable_numbers.push)
  then show ?thesis using 4 by (rule pq_reachable_numbers.push)
qed

lemma ex_queue_numbers: "pq_reachable_numbers ex_queue"
proof -
  let ?q1 = "\<lparr>objs = [(Num 5, 0, Some 10)], heap = [0], counter = 1,
              entry_finder = [(10, 0)]\<rparr> :: (int, nat) PriorityQueue"
  let ?q2 = "\<lparr>objs = [(Num 5, 0, Some 10), (Num 3, 1, Some 20)], heap = [1, 0], counter = 2,
              entry_finder = [(10, 0), (20, 1)]\<rparr> :: (int, nat) PriorityQueue"
  let ?q3 = "\<lparr>objs = [(Num 5, 0, None), (Num 3, 1, Some 20), (Num 5, 2, Some 10)], heap = [1, 0, 2],
              counter = 3, entry_finder = [(20, 1), (10, 2)]\<rparr> :: (int, nat) PriorityQueue"
  have 1: "PriorityQueue_push PriorityQueue_init 10 (Num 5) = Inr ?q1" by code_simp
  have 2: "PriorityQueue_push ?q1 20 (Num 3) = Inr ?q2" by code_simp
  have 3: "PriorityQueue_push ?q2 10 (Num 5) = Inr ?q3" by code_simp
  have 4: "PriorityQueue_push ?q3 30 (Num 3) = Inr ex_queue" by code_simp
  have "pq_reachable_numbers ?q1" using pq_reachable_numbers.init 1 by (rule pq_reachable_numbers.push)
  then have "pq_reachable_numbers ?q2" using 2 by (rule pq_reachable_numbers.push)
  then have "pq_reachable_numbers ?q3" using 3 by (rule pq_reachable_numbers.push)
  then show ?thesis using 4 by (rule pq_reachable_numbers.push)
qed

lemma pq_reachable_numbers_reachable:
  fixes q :: "('p::linorder, 'a) PriorityQueue"
  assumes "pq_reachable_numbers q"
  shows "pq_reachable q"
  using assms
proof (induction rule: pq_reachable_numbers.induct)
  case init
  show ?case by (rule pq_reachable.init)
next
  case (push q node p q')
  then show ?case by (auto intro: pq_reachable.push)
next
  case (remove q node q')
  then show ?case by (auto intro: pq_reachable.remove)
next
  case (pop q)
  then show ?case by (auto intro: pq_reachable.pop)
next
  case (peek q)
  then show ?case by (auto intro: pq_reachable.peek)
next
  case (clear q)
  then show ?case by (auto intro: pq_reachable.clear)
qed

lemma pq_reachable_numbers_ordered:
  fixes q :: "('p::linorder, 'a) PriorityQueue"
  assumes "pq_reachable_numbers q"
  shows "pq_invar q \<and> pq_ordered q"
  using assms
proof (induction rule: pq_reachable_numbers.induct)
  case init
  show ?case using pq_invar_init pq_ordered_init by blast
next
  case (push q node p q')
  then show ?case using pq_invar_push[of q node "Num p" q'] pq_ordered_push[of q node p q'] by blast
next
  case (remove q node q')
  then show ?case using pq_invar_remove[of q node q'] pq_ordered_remove[of q node q'] by blast
next
  case (pop q)
  then show ?case using PriorityQueue_pop_post[of q] by (simp add: pop_post_def)
next
  case (peek q)
  then show ?case using PriorityQueue_peek_post[of q] by (simp add: peek_post_def)
next
  case (clear q)
  show ?case using pq_invar_clear pq_ordered_clear by blast
qed

lemma ex_queue_invar: "pq_invar ex_queue"
  using pq_reachable_numbers_ordered[OF ex_queue_numbers] by simp

lemma ex_queue_ordered: "pq_ordered ex_queue"
  using pq_reachable_numbers_ordered[OF ex_queue_numbers] by simp

lemma ex_queue_tomb_invar: "pq_invar ex_queue_tomb"
  using pq_reachable_numbers_ordered[OF ex_queue_tomb_numbers] by simp

lemma ex_queue_tomb_ordered: "pq_ordered ex_queue_tomb"
  using pq_reachable_numbers_ordered[OF ex_queue_tomb_numbers] by simp

section \<open>Properties of the priority queue\<close>

text \<open>
  Claim C1.  Pushing a node that already has a live entry replaces that entry instead of
  adding a second one.  \<open>push\<close> succeeds; afterwards the node has exactly one live entry
  \<open>a\<close>, with the priority just given; the entry \<open>a0\<close> that was live for the node before is
  a different object, still in the heap and tombstoned; and the number of live entries and
  the size of the queue are unchanged.
\<close>

theorem PriorityQueue_push_replaces:
  fixes q :: "('p::linorder, 'a) PriorityQueue"
  assumes "pq_invar q" and "live_for q node \<noteq> []"
  shows "\<exists>q' a a0. PriorityQueue_push q node priority = Inr q' \<and>
           live_for q' node = [a] \<and> entry_priority (objs q') a = priority \<and>
           live_for q node = [a0] \<and> a0 \<noteq> a \<and>
           a0 \<in> set (heap q') \<and> entry_node (objs q') a0 = None \<and>
           PriorityQueue_len q' = PriorityQueue_len q \<and>
           length (live_entries q') = length (live_entries q) \<and> pq_invar q'"
proof -
  note I = pq_invarD[OF assms(1)]
  have c: "PriorityQueue_contains q node" using pq_invar_contains[OF assms(1)] assms(2) by simp
  then obtain a0 where na0: "(node, a0) \<in> set (entry_finder q)"
    by (auto simp: PriorityQueue_contains_def)
  have lf0: "live_for q node = [a0]" using assms(1) na0 by (rule pq_invar_live_for_finder)
  obtain q1 where q1: "(if PriorityQueue_contains q node then PriorityQueue_remove q node else Inr q) = Inr q1"
    and eq: "PriorityQueue_push q node priority =
      Inr (q1\<lparr>counter := counter q1 + 1,
               objs := objs q1 @ [(priority, counter q1, Some node)],
               entry_finder := AList.update node (length (objs q1)) (entry_finder q1),
               heap := heappush (entry_lt (objs q1 @ [(priority, counter q1, Some node)])) (heap q1)
                         (length (objs q1))\<rparr>)"
    by (rule PriorityQueue_push_Inr)
  let ?a = "length (objs q1)"
  let ?q' = "q1\<lparr>counter := counter q1 + 1,
               objs := objs q1 @ [(priority, counter q1, Some node)],
               entry_finder := AList.update node ?a (entry_finder q1),
               heap := heappush (entry_lt (objs q1 @ [(priority, counter q1, Some node)])) (heap q1) ?a\<rparr>"
  have r: "PriorityQueue_remove q node = Inr q1" using q1 c by simp
  have m: "map_of (entry_finder q) node = Some a0" using na0 I(5) by simp
  have q1_eq: "q1 = q\<lparr>entry_finder := AList.delete node (entry_finder q),
       objs := (objs q)[a0 := (entry_priority (objs q) a0, entry_count (objs q) a0, None)]\<rparr>"
    using r by (simp add: PriorityQueue_remove_def m)
  have inv': "pq_invar ?q'" using assms(1) eq by (rule pq_invar_push)
  have a0h: "a0 \<in> set (heap q)" using I(6)[OF na0] .
  have a0l: "a0 < length (objs q)" using I(2)[OF a0h] .
  have "(node, ?a) \<in> set (entry_finder ?q')"
    by (simp add: update_conv' map_of_SomeD)
  then have lf: "live_for ?q' node = [?a]" using inv' by (intro pq_invar_live_for_finder)
  have pr: "entry_priority (objs ?q') ?a = priority" by simp
  have ne: "a0 \<noteq> ?a" using a0l by (simp add: q1_eq)
  have a0h': "a0 \<in> set (heap ?q')" using a0h by (simp add: set_heappush q1_eq)
  have tomb: "entry_node (objs ?q') a0 = None"
    using a0l by (simp add: q1_eq entry_node_tombstone)
  have "length (entry_finder q1) = length (entry_finder q) - 1"
    using na0 by (simp add: q1_eq length_delete_distinct[OF I(5)] image_iff) force
  moreover have "node \<notin> fst ` set (entry_finder q1)"
    by (simp add: q1_eq delete_notin_dom)
  then have "AList.update node ?a (entry_finder q1) = entry_finder q1 @ [(node, ?a)]"
    by (rule update_fresh)
  moreover have "length (entry_finder q) > 0" using na0 by (cases "entry_finder q") auto
  ultimately have len: "PriorityQueue_len ?q' = PriorityQueue_len q"
    by (simp add: PriorityQueue_len_def)
  have live: "length (live_entries ?q') = length (live_entries q)"
    using len pq_invar_len[OF inv'] pq_invar_len[OF assms(1)]
    by (simp add: PriorityQueue_len_def)
  have "PriorityQueue_push q node priority = Inr ?q' \<and>
           live_for ?q' node = [?a] \<and> entry_priority (objs ?q') ?a = priority \<and>
           live_for q node = [a0] \<and> a0 \<noteq> ?a \<and>
           a0 \<in> set (heap ?q') \<and> entry_node (objs ?q') a0 = None \<and>
           PriorityQueue_len ?q' = PriorityQueue_len q \<and>
           length (live_entries ?q') = length (live_entries q) \<and> pq_invar ?q'"
    using eq lf pr lf0 ne a0h' tomb len live inv' by (intro conjI)
  then show ?thesis by blast
qed

theorem PriorityQueue_push_replaces_witness:
  "pq_invar ex_queue_tomb \<and> live_for ex_queue_tomb 20 = [1] \<and>
   PriorityQueue_len ex_queue_tomb = 3 \<and>
   (\<exists>q'. PriorityQueue_push ex_queue_tomb 20 (Num 0) = Inr q' \<and>
      live_for q' 20 = [4] \<and> entry_priority (objs q') 4 = Num 0 \<and>
      entry_node (objs q') 1 = None \<and> PriorityQueue_len q' = 3)"
proof -
  have l: "live_for ex_queue_tomb 20 = [1]" by code_simp
  have ne: "live_for ex_queue_tomb 20 \<noteq> []" by (simp add: l)
  have n: "PriorityQueue_len ex_queue_tomb = 3" by code_simp
  define q' :: "(int, nat) PriorityQueue"
    where "q' = \<lparr>objs = [(Num 1, 0, None), (Num 3, 1, None), (Num 3, 2, Some 30),
                           (Num 5, 3, Some 10), (Num 0, 4, Some 20)],
                  heap = [4, 0, 2, 3, 1], counter = 5,
                  entry_finder = [(30, 2), (10, 3), (20, 4)]\<rparr>"
  have p: "PriorityQueue_push ex_queue_tomb 20 (Num 0) = Inr q'"
    unfolding q'_def by code_simp
  have "live_for q' 20 = [4]" "entry_priority (objs q') 4 = Num 0" "entry_node (objs q') 1 = None"
    "PriorityQueue_len q' = 3"
    unfolding q'_def by code_simp+
  then show ?thesis
    using PriorityQueue_push_replaces[OF ex_queue_tomb_invar ne, of "Num 0"] ex_queue_tomb_invar l n p
    by auto
qed

text \<open>
  Claim C2, as stated for every queue with a live entry, does not hold when a priority is
  \<^verbatim>\<open>nan\<close>.  After \<^verbatim>\<open>push(1, 2.0)\<close>, \<^verbatim>\<open>push(2, nan)\<close>, \<^verbatim>\<open>push(3, 1.0)\<close>,
  \<^verbatim>\<open>push(4, 0.5)\<close> and \<^verbatim>\<open>push(5, 3.0)\<close> (priorities in tenths), \<open>pop\<close> returns
  node 3, whose live entry has priority 1.0, although node 4 has a live entry with the
  smaller priority 0.5.
\<close>

theorem PriorityQueue_pop_min_live_counterexample:
  "push_all PriorityQueue_init [(1, Num 20), (2, NaN), (3, Num 10), (4, Num 5), (5, Num 30)] =
     Inr ex_queue_nan \<and>
   fst (PriorityQueue_pop ex_queue_nan) = Inr 3 \<and>
   live_for ex_queue_nan 3 = [2] \<and> entry_priority (objs ex_queue_nan) 2 = Num 10 \<and>
   live_for ex_queue_nan 4 = [3] \<and> entry_priority (objs ex_queue_nan) 3 = Num 5 \<and>
   py_lt (entry_priority (objs ex_queue_nan) 3) (entry_priority (objs ex_queue_nan) 2)"
proof -
  have 1: "push_all PriorityQueue_init [(1, Num 20), (2, NaN), (3, Num 10), (4, Num 5), (5, Num 30)] =
     Inr ex_queue_nan" by code_simp
  have 2: "fst (PriorityQueue_pop ex_queue_nan) = Inr 3" by code_simp
  have 3: "live_for ex_queue_nan 3 = [2]" "entry_priority (objs ex_queue_nan) 2 = Num 10"
    "live_for ex_queue_nan 4 = [3]" "entry_priority (objs ex_queue_nan) 3 = Num 5"
    by code_simp+
  have 4: "py_lt (entry_priority (objs ex_queue_nan) 3) (entry_priority (objs ex_queue_nan) 2)"
    by (simp add: 3)
  show ?thesis using 1 2 3 4 by (intro conjI)
qed

text \<open>
  Claim C2, amended: for priorities that are numbers.  In every state reached without pushing
  the priority \<^verbatim>\<open>nan\<close> since the queue was created or last cleared
  (\<open>pq_reachable_numbers\<close>: any sequence of \<open>push\<close> with a number, \<open>remove\<close>, \<open>pop\<close>,
  \<open>peek\<close> and \<open>clear\<close>), whenever the queue has a live entry, \<open>pop\<close> returns a node
  and raises nothing.  The node is that of a
  live entry \<open>a\<close>, and every other live entry has a greater priority, or the same priority
  and a greater insertion count: \<open>a\<close> has the minimum priority, ties broken by the earliest
  insertion.  Tombstoned entries are never returned; those popped on the way are dropped,
  and the live entries afterwards are the ones before without \<open>a\<close>.  The invariant and the
  order of the heap still hold afterwards.  \<open>peek\<close> skips the tombstones in the same way and
  returns the same node.
\<close>

theorem PriorityQueue_pop_min_live:
  fixes q :: "('p::linorder, 'a) PriorityQueue"
  assumes "pq_reachable_numbers q" and "live_entries q \<noteq> []"
  shows "\<exists>node a q'. PriorityQueue_pop q = (Inr node, q') \<and>
           a \<in> set (live_entries q) \<and> entry_node (objs q) a = Some node \<and>
           (\<forall>b \<in> set (live_entries q). b \<noteq> a \<longrightarrow>
              py_lt (entry_priority (objs q) a) (entry_priority (objs q) b) \<or>
              (py_eq (entry_priority (objs q) a) (entry_priority (objs q) b) \<and>
               entry_count (objs q) a < entry_count (objs q) b)) \<and>
           set (live_entries q') = set (live_entries q) - {a} \<and>
           \<not> PriorityQueue_contains q' node \<and> pq_invar q' \<and> pq_ordered q' \<and>
           fst (PriorityQueue_peek q) = Inr (Some node)"
proof -
  have inv: "pq_invar q" and ord: "pq_ordered q"
    using pq_reachable_numbers_ordered[OF assms(1)] by simp_all
  note I = pq_invarD[OF inv]
  note O = pq_orderedD[OF ord]
  obtain r q' where p: "PriorityQueue_pop q = (r, q')" by (cases "PriorityQueue_pop q")
  have post: "pop_post q (r, q')" using PriorityQueue_pop_post[OF inv] p by simp
  then obtain node where r: "r = Inr node"
    using assms(2) by (cases r) (auto simp: pop_post_def)
  from post r ord obtain a where a: "a \<in> set (live_entries q)" "entry_node (objs q) a = Some node"
    and min: "\<And>b. b \<in> set (live_entries q) \<Longrightarrow> entry_key (objs q) a \<le> entry_key (objs q) b"
    and rest: "set (live_entries q') = set (live_entries q) - {a}"
    and ef: "entry_finder q' = AList.delete node (entry_finder q)"
    by (auto simp: pop_post_def)
  have inv': "pq_invar q'" and ord': "pq_ordered q'"
    using post ord by (auto simp: pop_post_def)
  have num: "entry_priority (objs q) b \<noteq> NaN" if "b \<in> set (live_entries q)" for b
    using that O(1)[of b] by (simp add: set_live_entries)
  have strict: "py_lt (entry_priority (objs q) a) (entry_priority (objs q) b) \<or>
              (py_eq (entry_priority (objs q) a) (entry_priority (objs q) b) \<and>
               entry_count (objs q) a < entry_count (objs q) b)"
    if b: "b \<in> set (live_entries q)" "b \<noteq> a" for b
  proof -
    have "a \<in> set (heap q)" "b \<in> set (heap q)" using a(1) b(1) by (simp_all add: set_live_entries)
    then have "entry_count (objs q) a \<noteq> entry_count (objs q) b"
      using I(4) b(2) by (auto simp: distinct_map dest: inj_onD)
    then show ?thesis
      using min[OF b(1)] entry_key_le[OF num[OF a(1)] num[OF b(1)]] by auto
  qed
  have nc: "\<not> PriorityQueue_contains q' node"
    using delete_notin_dom[of node "entry_finder q"] by (simp add: PriorityQueue_contains_def ef)
  have pk: "fst (PriorityQueue_peek q) = Inr (Some node)"
  proof -
    have post': "peek_post q (PriorityQueue_peek q)" by (rule PriorityQueue_peek_post[OF inv])
    then obtain v where v: "fst (PriorityQueue_peek q) = Inr v"
      by (cases "fst (PriorityQueue_peek q)") (auto simp: peek_post_def)
    then obtain n' where n': "v = Some n'"
      using post' assms(2) by (cases v) (auto simp: peek_post_def)
    from post' v n' ord obtain a' where a': "a' \<in> set (live_entries q)"
        "entry_node (objs q) a' = Some n'"
      and min': "\<And>b. b \<in> set (live_entries q) \<Longrightarrow>
          entry_key (objs q) a' \<le> entry_key (objs q) b"
      by (auto simp: peek_post_def)
    have "a' = a"
    proof (rule ccontr)
      assume ne: "a' \<noteq> a"
      have "py_lt (entry_priority (objs q) a) (entry_priority (objs q) a') \<or>
              (py_eq (entry_priority (objs q) a) (entry_priority (objs q) a') \<and>
               entry_count (objs q) a < entry_count (objs q) a')"
        using strict[OF a'(1) ne] .
      moreover have "entry_key (objs q) a \<le> entry_key (objs q) a'" using min[OF a'(1)] .
      moreover have "entry_key (objs q) a' \<le> entry_key (objs q) a" using min'[OF a(1)] .
      ultimately show False
        using entry_key_le[OF num[OF a(1)] num[OF a'(1)]] entry_key_le[OF num[OF a'(1)] num[OF a(1)]]
        by (cases "entry_priority (objs q) a"; cases "entry_priority (objs q) a'") auto
    qed
    then show ?thesis using v n' a'(2) a(2) by simp
  qed
  show ?thesis
    using p r a strict rest nc inv' ord' pk by blast
qed

theorem PriorityQueue_pop_min_live_witness:
  "pq_reachable_numbers ex_queue_tomb \<and> pq_invar ex_queue_tomb \<and> pq_ordered ex_queue_tomb \<and>
   live_entries ex_queue_tomb = [1, 2, 3] \<and>
   heap ex_queue_tomb ! 0 = 0 \<and> entry_node (objs ex_queue_tomb) 0 = None \<and>
   PriorityQueue_pop ex_queue_tomb =
     (Inr 20, \<lparr>objs = [(Num 1, 0, None), (Num 3, 1, Some 20), (Num 3, 2, Some 30),
                       (Num 5, 3, Some 10)],
               heap = [2, 3], counter = 4, entry_finder = [(30, 2), (10, 3)]\<rparr>) \<and>
   (\<exists>a. a \<in> set (live_entries ex_queue_tomb) \<and>
        entry_node (objs ex_queue_tomb) a = Some 20 \<and>
        (\<forall>b \<in> set (live_entries ex_queue_tomb). b \<noteq> a \<longrightarrow>
           py_lt (entry_priority (objs ex_queue_tomb) a) (entry_priority (objs ex_queue_tomb) b) \<or>
           (py_eq (entry_priority (objs ex_queue_tomb) a) (entry_priority (objs ex_queue_tomb) b) \<and>
            entry_count (objs ex_queue_tomb) a < entry_count (objs ex_queue_tomb) b))) \<and>
   fst (PriorityQueue_peek ex_queue_tomb) = Inr (Some 20)"
proof -
  have l: "live_entries ex_queue_tomb = [1, 2, 3]" by code_simp
  have t: "heap ex_queue_tomb ! 0 = 0" "entry_node (objs ex_queue_tomb) 0 = None" by code_simp+
  have p: "PriorityQueue_pop ex_queue_tomb =
     (Inr 20, \<lparr>objs = [(Num 1, 0, None), (Num 3, 1, Some 20), (Num 3, 2, Some 30),
                       (Num 5, 3, Some 10)],
               heap = [2, 3], counter = 4, entry_finder = [(30, 2), (10, 3)]\<rparr>)"
    by code_simp
  have ne: "live_entries ex_queue_tomb \<noteq> []" by (simp add: l)
  show ?thesis
    using PriorityQueue_pop_min_live[OF ex_queue_tomb_numbers ne]
      ex_queue_tomb_numbers ex_queue_tomb_invar ex_queue_tomb_ordered l t
    unfolding p by auto
qed

text \<open>
  Claim C3.  Size, membership and emptiness count only live entries.  In every state that
  satisfies the invariant, \<^verbatim>\<open>len\<close> is the number of live entries of the heap, a node is a
  member exactly when the heap has a live entry for it, and the queue is empty exactly when the
  heap has no live entry.  Removing a member \<open>node\<close> succeeds; afterwards \<open>node\<close> is no
  longer a member and the size is one less, while the heap is the same list as before: the
  entry \<open>a\<close> that was the live entry of \<open>node\<close> is still in the heap, as a tombstone.
\<close>

theorem PriorityQueue_counts_live_entries:
  fixes q :: "('p::linorder, 'a) PriorityQueue"
  assumes "pq_invar q"
  shows "PriorityQueue_len q = length (live_entries q) \<and>
         (PriorityQueue_contains q node \<longleftrightarrow> live_for q node \<noteq> []) \<and>
         (PriorityQueue_is_empty q \<longleftrightarrow> live_entries q = []) \<and>
         (PriorityQueue_contains q node \<longrightarrow>
            (\<exists>q' a. PriorityQueue_remove q node = Inr q' \<and>
               \<not> PriorityQueue_contains q' node \<and>
               PriorityQueue_len q' = PriorityQueue_len q - 1 \<and>
               live_for q node = [a] \<and>
               heap q' = heap q \<and> a \<in> set (heap q') \<and> entry_node (objs q') a = None \<and>
               live_for q' node = [] \<and>
               length (live_entries q') = length (live_entries q) - 1))"
proof (intro conjI impI)
  show len: "PriorityQueue_len q = length (live_entries q)"
    using pq_invar_len[OF assms] by (simp add: PriorityQueue_len_def)
  show "PriorityQueue_contains q node \<longleftrightarrow> live_for q node \<noteq> []"
    by (rule pq_invar_contains[OF assms])
  show "PriorityQueue_is_empty q \<longleftrightarrow> live_entries q = []"
    using pq_invar_len[OF assms] by (simp add: PriorityQueue_is_empty_def)
  assume c: "PriorityQueue_contains q node"
  then obtain a where na: "(node, a) \<in> set (entry_finder q)"
    by (auto simp: PriorityQueue_contains_def)
  note I = pq_invarD[OF assms]
  have m: "map_of (entry_finder q) node = Some a" using na I(5) by simp
  let ?q' = "q\<lparr>entry_finder := AList.delete node (entry_finder q),
               objs := (objs q)[a := (entry_priority (objs q) a, entry_count (objs q) a, None)]\<rparr>"
  have r: "PriorityQueue_remove q node = Inr ?q'" by (simp add: PriorityQueue_remove_def m)
  have inv': "pq_invar ?q'" using assms r by (rule pq_invar_remove)
  have nc: "\<not> PriorityQueue_contains ?q' node" using r by (rule remove_not_contains)
  have ld: "length (AList.delete node (entry_finder q)) = length (entry_finder q) - 1"
    using na by (simp add: length_delete_distinct[OF I(5)] image_iff) force
  have lf: "live_for q node = [a]" using assms na by (rule pq_invar_live_for_finder)
  have ah: "a \<in> set (heap q)" using I(6)[OF na] .
  have tomb: "entry_node (objs ?q') a = None"
    using I(2)[OF ah] by (simp add: entry_node_tombstone)
  have gone: "live_for ?q' node = []" using pq_invar_contains[OF inv', of node] nc by simp
  have "length (live_entries ?q') = length (entry_finder ?q')"
    using pq_invar_len[OF inv'] by simp
  then have cnt: "length (live_entries ?q') = length (live_entries q) - 1"
    using ld pq_invar_len[OF assms] by simp
  have "PriorityQueue_remove q node = Inr ?q' \<and>
               \<not> PriorityQueue_contains ?q' node \<and>
               PriorityQueue_len ?q' = PriorityQueue_len q - 1 \<and>
               live_for q node = [a] \<and>
               heap ?q' = heap q \<and> a \<in> set (heap ?q') \<and> entry_node (objs ?q') a = None \<and>
               live_for ?q' node = [] \<and>
               length (live_entries ?q') = length (live_entries q) - 1"
    using r nc lf ah tomb gone cnt ld by (simp add: PriorityQueue_len_def)
  then show "\<exists>q' a. PriorityQueue_remove q node = Inr q' \<and>
               \<not> PriorityQueue_contains q' node \<and>
               PriorityQueue_len q' = PriorityQueue_len q - 1 \<and>
               live_for q node = [a] \<and>
               heap q' = heap q \<and> a \<in> set (heap q') \<and> entry_node (objs q') a = None \<and>
               live_for q' node = [] \<and>
               length (live_entries q') = length (live_entries q) - 1"
    by blast
qed

theorem PriorityQueue_counts_live_entries_witness:
  "pq_invar ex_queue \<and>
   PriorityQueue_len ex_queue = 3 \<and> length (heap ex_queue) = 4 \<and>
   length (live_entries ex_queue) = 3 \<and>
   PriorityQueue_contains ex_queue 10 \<and> live_for ex_queue 10 = [2] \<and>
   \<not> PriorityQueue_is_empty ex_queue \<and>
   (\<exists>q'. PriorityQueue_remove ex_queue 10 = Inr q' \<and> \<not> PriorityQueue_contains q' 10 \<and>
       PriorityQueue_len q' = 2 \<and> heap q' = [1, 3, 2, 0] \<and> entry_node (objs q') 2 = None \<and>
       length (live_entries q') = 2)"
proof -
  have c: "PriorityQueue_contains ex_queue 10" by code_simp
  have l: "live_for ex_queue 10 = [2]" by code_simp
  have n: "PriorityQueue_len ex_queue = 3" "length (heap ex_queue) = 4" by code_simp+
  have h: "heap ex_queue = [1, 3, 2, 0]" by code_simp
  show ?thesis
    using PriorityQueue_counts_live_entries[OF ex_queue_invar, of 10] c l n h ex_queue_invar
    by auto
qed

text \<open>
  Claim C9.  The invariant \<open>pq_invar\<close> holds of the empty queue, hence of every reachable
  state, and is preserved by every operation, whatever the priorities are: by \<open>push\<close>
  (which never raises), by a \<open>remove\<close> that succeeds (one that raises \<^verbatim>\<open>KeyError\<close>
  changes nothing), by \<open>pop\<close> and \<open>peek\<close> whatever they return, and by \<open>clear\<close>.  In
  every state that satisfies it, \<open>entry_finder\<close> maps each queued node to its unique live
  entry in the heap, the number of live entries of the heap is the length of
  \<open>entry_finder\<close>, and no node has two live entries.  Moreover the order of the heap
  (\<open>pq_ordered\<close>) holds of the empty queue and is preserved by every operation other than a
  \<open>push\<close> with priority \<^verbatim>\<open>nan\<close>.
\<close>

theorem PriorityQueue_invariant:
  fixes q :: "('p::linorder, 'a) PriorityQueue"
  shows "pq_invar (PriorityQueue_init :: ('p, 'a) PriorityQueue) \<and>
   (pq_reachable q \<longrightarrow> pq_invar q) \<and>
   (pq_invar q \<longrightarrow>
      finder_consistent q \<and> (\<forall>node. length (live_for q node) \<le> 1) \<and>
      (\<forall>node priority. \<exists>q'. PriorityQueue_push q node priority = Inr q' \<and> pq_invar q') \<and>
      (\<forall>node q'. PriorityQueue_remove q node = Inr q' \<longrightarrow> pq_invar q') \<and>
      pq_invar (snd (PriorityQueue_pop q)) \<and>
      pq_invar (snd (PriorityQueue_peek q)) \<and>
      pq_invar (PriorityQueue_clear q)) \<and>
   pq_ordered (PriorityQueue_init :: ('p, 'a) PriorityQueue) \<and>
   (pq_invar q \<and> pq_ordered q \<longrightarrow>
      (\<forall>node p q'. PriorityQueue_push q node (Num p) = Inr q' \<longrightarrow> pq_ordered q') \<and>
      (\<forall>node q'. PriorityQueue_remove q node = Inr q' \<longrightarrow> pq_ordered q') \<and>
      pq_ordered (snd (PriorityQueue_pop q)) \<and>
      pq_ordered (snd (PriorityQueue_peek q)) \<and>
      pq_ordered (PriorityQueue_clear q))"
proof (intro conjI impI allI)
  show "pq_invar (PriorityQueue_init :: ('p, 'a) PriorityQueue)" by (rule pq_invar_init)
next
  assume "pq_reachable q"
  then show "pq_invar q" by (rule pq_reachable_invar)
next
  assume inv: "pq_invar q"
  show "finder_consistent q" using inv by (rule pq_invar_finder_consistent)
  show "length (live_for q node) \<le> 1" for node using inv by (rule pq_invar_finder_consistent)
  show "\<exists>q'. PriorityQueue_push q node priority = Inr q' \<and> pq_invar q'" for node priority
  proof -
    obtain q' where "PriorityQueue_push q node priority = Inr q'"
      using PriorityQueue_push_Inr[of q node priority] by metis
    then show ?thesis using pq_invar_push[OF inv] by blast
  qed
  show "pq_invar q'" if "PriorityQueue_remove q node = Inr q'" for node q'
    using inv that by (rule pq_invar_remove)
  show "pq_invar (snd (PriorityQueue_pop q))"
    using PriorityQueue_pop_post[OF inv] by (simp add: pop_post_def)
  show "pq_invar (snd (PriorityQueue_peek q))"
    using PriorityQueue_peek_post[OF inv] by (simp add: peek_post_def)
  show "pq_invar (PriorityQueue_clear q)" by (rule pq_invar_clear)
next
  show "pq_ordered (PriorityQueue_init :: ('p, 'a) PriorityQueue)" by (rule pq_ordered_init)
next
  assume "pq_invar q \<and> pq_ordered q"
  then have inv: "pq_invar q" and ord: "pq_ordered q" by simp_all
  show "pq_ordered q'" if "PriorityQueue_push q node (Num p) = Inr q'" for node p q'
    using inv ord that by (rule pq_ordered_push)
  show "pq_ordered q'" if "PriorityQueue_remove q node = Inr q'" for node q'
    using ord that by (rule pq_ordered_remove)
  show "pq_ordered (snd (PriorityQueue_pop q))"
    using PriorityQueue_pop_post[OF inv] ord by (simp add: pop_post_def)
  show "pq_ordered (snd (PriorityQueue_peek q))"
    using PriorityQueue_peek_post[OF inv] ord by (simp add: peek_post_def)
  show "pq_ordered (PriorityQueue_clear q)" by (rule pq_ordered_clear)
qed

theorem PriorityQueue_invariant_witness:
  "pq_invar (PriorityQueue_init :: (int, nat) PriorityQueue) \<and>
   pq_invar ex_queue \<and> finder_consistent ex_queue \<and>
   entry_finder ex_queue = [(20, 1), (10, 2), (30, 3)] \<and>
   live_entries ex_queue = [1, 3, 2] \<and>
   (\<exists>q'. PriorityQueue_push ex_queue 10 (Num 7) = Inr q' \<and> pq_invar q' \<and> pq_ordered q') \<and>
   (\<exists>q'. PriorityQueue_push ex_queue 10 NaN = Inr q' \<and> pq_invar q') \<and>
   (\<exists>q'. PriorityQueue_remove ex_queue 10 = Inr q' \<and> pq_invar q') \<and>
   fst (PriorityQueue_pop ex_queue) = Inr 20 \<and>
   pq_invar (snd (PriorityQueue_pop ex_queue)) \<and>
   pq_ordered (snd (PriorityQueue_pop ex_queue)) \<and>
   pq_invar (PriorityQueue_clear ex_queue)"
proof -
  note T = PriorityQueue_invariant[of ex_queue]
  have e: "entry_finder ex_queue = [(20, 1), (10, 2), (30, 3)]"
    "live_entries ex_queue = [1, 3, 2]" "fst (PriorityQueue_pop ex_queue) = Inr 20"
    by code_simp+
  obtain q' where r: "PriorityQueue_remove ex_queue 10 = Inr q'"
    by (simp add: PriorityQueue_remove_def ex_queue_def)
  have inv: "pq_invar ex_queue \<and> pq_ordered ex_queue"
    using ex_queue_invar ex_queue_ordered by simp
  obtain q7 where q7: "PriorityQueue_push ex_queue 10 (Num 7) = Inr q7" "pq_invar q7"
    using T ex_queue_invar by blast
  have o7: "pq_ordered q7" using T inv q7(1) by blast
  have 1: "\<exists>q'. PriorityQueue_push ex_queue 10 (Num 7) = Inr q' \<and> pq_invar q' \<and> pq_ordered q'"
    using q7 o7 by blast
  have 2: "\<exists>q'. PriorityQueue_push ex_queue 10 NaN = Inr q' \<and> pq_invar q'"
    using T ex_queue_invar by blast
  have 3: "\<exists>q'. PriorityQueue_remove ex_queue 10 = Inr q' \<and> pq_invar q'"
    using T ex_queue_invar r by blast
  have 4: "pq_invar (snd (PriorityQueue_pop ex_queue))" "pq_invar (PriorityQueue_clear ex_queue)"
    "finder_consistent ex_queue"
    using T ex_queue_invar by blast+
  have 5: "pq_ordered (snd (PriorityQueue_pop ex_queue))" using T inv by blast
  have 6: "pq_invar (PriorityQueue_init :: (int, nat) PriorityQueue)" by (rule pq_invar_init)
  show ?thesis
    using 1 2 3 4 5 6 ex_queue_invar e by (intro conjI)
qed

text \<open>
  Claim C10.  On an empty structure \<open>pop\<close> raises and \<open>peek\<close> returns \<^verbatim>\<open>None\<close>: for an
  empty \<open>Queue\<close> and an empty \<open>Stack\<close>, \<open>pop\<close> raises \<^verbatim>\<open>IndexError\<close>; for a
  \<open>PriorityQueue\<close> whose heap has no live entry (it is empty or holds tombstones only),
  \<open>pop\<close> raises \<^verbatim>\<open>KeyError\<close>; and \<open>peek\<close> returns \<^verbatim>\<open>None\<close> in all three.
\<close>

theorem empty_pop_raises_peek_None:
  fixes q :: "('p::linorder, 'a) PriorityQueue"
  shows "(Queue_is_empty qu \<longrightarrow> Queue_pop qu = Inl IndexError \<and> Queue_peek qu = None) \<and>
   (Stack_is_empty st \<longrightarrow> Stack_pop st = Inl IndexError \<and> Stack_peek st = None) \<and>
   (live_entries q = [] \<longrightarrow>
      fst (PriorityQueue_pop q) = Inl KeyError \<and> fst (PriorityQueue_peek q) = Inr None)"
  using no_live_pop_peek[of q]
  by (simp add: Queue_pop_def Queue_peek_def Stack_pop_def Stack_peek_def)

theorem empty_pop_raises_peek_None_witness:
  "Queue_is_empty (Queue_init :: nat Queue) \<and>
   Queue_pop (Queue_init :: nat Queue) = Inl IndexError \<and>
   Queue_peek (Queue_init :: nat Queue) = None \<and>
   Stack_is_empty (Stack_init :: nat Stack) \<and>
   Stack_pop (Stack_init :: nat Stack) = Inl IndexError \<and>
   Stack_peek (Stack_init :: nat Stack) = None \<and>
   live_entries ex_queue_dead = [] \<and> heap ex_queue_dead = [0] \<and>
   fst (PriorityQueue_pop ex_queue_dead) = Inl KeyError \<and>
   fst (PriorityQueue_peek ex_queue_dead) = Inr None \<and>
   PriorityQueue_pop (PriorityQueue_init :: (int, nat) PriorityQueue) =
     (Inl KeyError, PriorityQueue_init)"
proof -
  have 1: "Queue_is_empty (Queue_init :: nat Queue)" "Stack_is_empty (Stack_init :: nat Stack)"
    by (simp_all add: Queue_is_empty_def Queue_init_def Stack_is_empty_def Stack_init_def)
  have 2: "live_entries ex_queue_dead = []" "heap ex_queue_dead = [0]" by code_simp+
  have 3: "PriorityQueue_pop (PriorityQueue_init :: (int, nat) PriorityQueue) =
     (Inl KeyError, PriorityQueue_init)"
    by (simp add: PriorityQueue_pop_empty PriorityQueue_init_def)
  show ?thesis
    using empty_pop_raises_peek_None[of "Queue_init :: nat Queue" "Stack_init :: nat Stack"
        ex_queue_dead] 1 2 3
    by simp
qed

section \<open>Properties of the queue and the stack\<close>

lemma Queue_items_pushes:
  "Queue.items (foldl Queue_push q xs) = Queue.items q @ xs"
  by (induction xs arbitrary: q) (simp_all add: Queue_push_def)

lemma Stack_items_pushes:
  "Stack.items (foldl Stack_push s xs) = Stack.items s @ xs"
  by (induction xs arbitrary: s) (simp_all add: Stack_push_def)

text \<open>
  Claim C7.  A \<open>Queue\<close> is first-in, first-out.  Its \<open>items\<close> hold the items still in the
  queue, earliest push first, and a sequence of pushes \<open>xs\<close> appends to them in order.  Hence
  after any sequence of pushes onto any queue \<open>q\<close>, if \<open>y\<close> is the earliest-pushed item still
  in the queue, \<open>pop\<close> returns \<open>y\<close> and leaves exactly the later items \<open>ys\<close>, in order.
\<close>

theorem Queue_fifo:
  fixes q :: "'a Queue"
  assumes "Queue.items q @ xs = y # ys"
  shows "Queue_pop (foldl Queue_push q xs) = Inr (y, \<lparr>Queue.items = ys\<rparr>)"
  using assms by (simp add: Queue_pop_def Queue_is_empty_def Queue_items_pushes)

theorem Queue_fifo_witness:
  "Queue.items (Queue_push Queue_init (7::nat)) @ [8, 9] = 7 # [8, 9] \<and>
   Queue_pop (foldl Queue_push (Queue_push Queue_init (7::nat)) [8, 9]) =
     Inr (7, \<lparr>Queue.items = [8, 9]\<rparr>)"
proof -
  have h: "Queue.items (Queue_push Queue_init (7::nat)) @ [8, 9] = 7 # [8, 9]"
    by (simp add: Queue_push_def Queue_init_def)
  show ?thesis using h Queue_fifo[OF h] by simp
qed

text \<open>
  Claim C8.  A \<open>Stack\<close> is last-in, first-out: after any sequence of pushes \<open>xs\<close> onto any
  stack \<open>s\<close>, if \<open>y\<close> is the most recently pushed item still in the stack, \<open>pop\<close> returns
  \<open>y\<close> and leaves exactly the earlier items \<open>ys\<close>.
\<close>

theorem Stack_lifo:
  fixes s :: "'a Stack"
  assumes "Stack.items s @ xs = ys @ [y]"
  shows "Stack_pop (foldl Stack_push s xs) = Inr (y, \<lparr>Stack.items = ys\<rparr>)"
  using assms by (simp add: Stack_pop_def Stack_is_empty_def Stack_items_pushes)

theorem Stack_lifo_witness:
  "Stack.items (Stack_push Stack_init (7::nat)) @ [8, 9] = [7, 8] @ [9] \<and>
   Stack_pop (foldl Stack_push (Stack_push Stack_init (7::nat)) [8, 9]) =
     Inr (9, \<lparr>Stack.items = [7, 8]\<rparr>)"
proof -
  have h: "Stack.items (Stack_push Stack_init (7::nat)) @ [8, 9] = [7, 8] @ [9]"
    by (simp add: Stack_push_def Stack_init_def)
  show ?thesis using h Stack_lifo[OF h] by simp
qed

section \<open>Properties of the visualiser's search run\<close>

lemma case_prod_Pair_map: "map (\<lambda>(name, state). (name, state)) ns = ns"
  by (induction ns) auto






lemma goal_nodes_clear_stop [simp]:
  "goal_nodes (clear_path (stop_search self)) = goal_nodes self"
  by (simp add: clear_path_def stop_search_def)




text \<open>
  Claim C5, as stated, fails: the snapshot that \<^verbatim>\<open>capture_search_state\<close> takes after a step
  has no field \<^verbatim>\<open>success\<close> and no field \<^verbatim>\<open>nodes_explored\<close>, and it has a field
  \<^verbatim>\<open>node_states\<close> that the claim does not list.
\<close>

theorem capture_search_state_fields_counterexample:
  "''success'' \<notin> set (map fst (capture_search_state ex_agent ex_nodes)) \<and>
   ''nodes_explored'' \<notin> set (map fst (capture_search_state ex_agent ex_nodes)) \<and>
   ''node_states'' \<in> set (map fst (capture_search_state ex_agent ex_nodes))"
  by (simp add: capture_search_state_def)

text \<open>
  Claim C5, amended.  The snapshot taken after every step has exactly the six fields
  \<^verbatim>\<open>fringe\<close>, \<^verbatim>\<open>visited\<close>, \<^verbatim>\<open>traversal\<close>, \<^verbatim>\<open>path\<close>, \<^verbatim>\<open>node_states\<close> and
  \<^verbatim>\<open>current_info\<close>, in this order: copies of the agent's frontier, visited, traversal and
  path lists, the presentation tag of every node, and a copy of the agent's current
  evaluation.
\<close>

theorem capture_search_state_fields:
  "map fst (capture_search_state search_agent ns) =
     [''fringe'', ''visited'', ''traversal'', ''path'', ''node_states'', ''current_info''] \<and>
   map snd (capture_search_state search_agent ns) =
     [Items (fringe_list search_agent), Items (visited_list search_agent),
      Items (traversal_array search_agent), Items (path_found search_agent),
      NodeStates ns, Info (current_node_info search_agent)]"
  by (simp add: capture_search_state_def case_prod_Pair_map)

text \<open>
  Claim C6, as stated, fails: with no source node set, \<^verbatim>\<open>start_search\<close> raises nothing.  It
  returns normally, having shown an alert.
\<close>

theorem start_search_invalid_configuration_counterexample:
  "start_search ex_engine BFS None ex_visualizer_no_source =
     Some (Inr (ex_visualizer_no_source\<lparr>alerts := [''Please set a source node'']\<rparr>))"
  by (simp add: start_search_def ex_visualizer_no_source_def ex_visualizer_def)

text \<open>
  Claim C6, amended.  Starting a run on a graph with no nodes, with no source node or with no
  goal node raises no exception: \<^verbatim>\<open>start_search\<close> shows an alert and returns before a search
  agent is constructed.  Nothing else of the visualiser changes, so no search step is made and
  no snapshot is produced.
\<close>

theorem start_search_invalid_configuration:
  assumes "length (nodes self) = 0 \<or> source_node self = None \<or> length (goal_nodes self) = 0"
  shows "\<exists>message \<in> set [''Please add nodes to the graph first'', ''Please set a source node'',
                          ''Please set a goal node''].
           start_search eng algo depth_limit self =
             Some (Inr (self\<lparr>alerts := alerts self @ [message]\<rparr>))"
  using assms by (auto simp: start_search_def split: option.splits)

theorem start_search_invalid_configuration_witness:
  "source_node ex_visualizer_no_source = None \<and>
   length (nodes ex_visualizer_no_source) = 2 \<and>
   start_search ex_engine AStar (Some 3) ex_visualizer_no_source =
     Some (Inr (ex_visualizer_no_source\<lparr>alerts := [''Please set a source node'']\<rparr>))"
proof -
  have h: "source_node ex_visualizer_no_source = None"
    by (simp add: ex_visualizer_no_source_def)
  have n: "length (nodes ex_visualizer_no_source) = 2" "alerts ex_visualizer_no_source = []"
    by (simp_all add: ex_visualizer_no_source_def ex_visualizer_def)
  have d: "ex_visualizer_no_source\<lparr>alerts := [m]\<rparr> = ex_visualizer_no_source\<lparr>alerts := [m']\<rparr>
      \<longleftrightarrow> m = m'" for m m'
    by (simp add: ex_visualizer_no_source_def ex_visualizer_def)
  have e: "start_search ex_engine AStar (Some 3) ex_visualizer_no_source =
     Some (Inr (ex_visualizer_no_source\<lparr>alerts := [''Please set a source node'']\<rparr>))"
    by (simp add: start_search_def ex_visualizer_no_source_def ex_visualizer_def)
  have "length (nodes ex_visualizer_no_source) = 0 \<or> source_node ex_visualizer_no_source = None \<or>
      length (goal_nodes ex_visualizer_no_source) = 0"
    using h by simp
  from start_search_invalid_configuration[OF this, of ex_engine AStar "Some 3"]
  show ?thesis using h n e by simp
qed

end
